theory Spec2Isabelle
  imports Main "HOL-Library.Word"
begin

section \<open>The cache of EasyDataManager (src/cache/cache.c)\<close>

text \<open>
  The cache is a singly linked list of \<open>CacheData\<close> blocks with a head and a tail
  pointer, kept in dynamic memory. The embedding keeps the pointers: a pointer is an
  address or \<open>NULL\<close> (\<open>None\<close>), the dynamic memory is a map from addresses to
  blocks, and every dereference of the source is a lookup in that map.

  A run of a function of the source either returns, or stops in a fault (a dereference of
  \<open>NULL\<close> or of a block that is not allocated, a failed assertion, a read or write
  beyond a caller's buffer), or never returns (a walk along a cyclic list). The result
  type is \<open>(fault + 'a) option\<close>: \<open>None\<close> is the run that never returns,
  \<open>Some (Inl f)\<close> the fault, \<open>Some (Inr v)\<close> the return value.

  \<open>cache.h\<close> is not among the sources. Its two constants \<open>CACHE_NAME_MAX\<close> and
  \<open>CACHE_LENGTH_MAX\<close> are parameters of the functions that use them, the error codes
  are the five the source names, and the structs have the fields the source reads and
  writes. Logging is not modelled.
\<close>

subsection \<open>Data\<close>

type_synonym addr = nat

text \<open>A listener is a function pointer; only its identity matters here.\<close>

type_synonym listener = nat

text \<open>A C string argument: \<open>None\<close> is the \<open>NULL\<close> pointer.\<close>

type_synonym cstr = "string option"

datatype CacheErrCode =
    CACHE_NO_ERR
  | CACHE_NAME_ERROR
  | CACHE_LENGTH_ERROR
  | CACHE_NO_VALUE
  | CACHE_NOT_INIT

text \<open>
  The ways in which a run stops without returning. A failed \<open>assert\<close> ends the run:
  the macro is not among the sources, and the spec calls a violated assertion a
  programming error, not a recoverable condition.
\<close>

datatype fault = NullDeref | InvalidDeref | AssertFailed | OutOfBounds

text \<open>
  \<open>struct CacheData\<close>. \<open>data_value\<close> is the content of the buffer that the field
  \<open>value\<close> points to: the buffer is allocated with the block, owned by it alone and
  freed with it.
\<close>

record CacheData =
  data_name :: string
  data_length :: "8 word"
  data_value :: "16 word list"
  valueChangedListener :: "listener option"
  data_next :: "addr option"

type_synonym heap = "addr \<Rightarrow> CacheData option"

text \<open>The names of the six functions that \<open>initCache\<close> stores in the cache.\<close>

datatype cache_fn = HasData | AddData | DelData | GetValue | SetValue | GetSize

text \<open>
  Modelled from the spec: the worker pool (\<open>ThreadPool\<close>, its \<open>initThreadPool\<close>,
  \<open>lock\<close>, \<open>unlock\<close> and \<open>addTask\<close>) is an external collaborator that is not
  among the sources. It provides one mutual-exclusion guard and a fire-and-forget queue of
  tasks; a task is a callback with its argument, here the address of a block.
\<close>

record ThreadPool =
  pool_name :: string
  maxThreadNum :: "8 word"
  threadStackSize :: "32 word"
  held :: bool
  tasks :: "(listener \<times> addr) list"

text \<open>
  \<open>struct Cache\<close>, with the dynamic memory that its pointers refer to as the field
  \<open>heap\<close>. The pool is held by value.
\<close>

record Cache =
  cache_name :: string
  has_fn :: "cache_fn option"
  add_fn :: "cache_fn option"
  del_fn :: "cache_fn option"
  get_fn :: "cache_fn option"
  set_fn :: "cache_fn option"
  getSize_fn :: "cache_fn option"
  dataHead :: "addr option"
  dataTail :: "addr option"
  pool :: ThreadPool
  heap :: heap

subsection \<open>The worker pool\<close>

text \<open>Modelled from the spec: constructs the pool with the given concurrency
  parameters, the guard free and no task queued.\<close>

definition initThreadPool :: "string \<Rightarrow> 8 word \<Rightarrow> 32 word \<Rightarrow> ThreadPool" where
  "initThreadPool nm maxThreads stackSize =
     \<lparr>pool_name = nm, maxThreadNum = maxThreads, threadStackSize = stackSize,
      held = False, tasks = []\<rparr>"

text \<open>Modelled from the spec: acquires the guard. In a sequential run nobody else
  holds it.\<close>

definition lock :: "ThreadPool \<Rightarrow> ThreadPool" where
  "lock p = p\<lparr>held := True\<rparr>"

text \<open>Modelled from the spec: releases the guard.\<close>

definition unlock :: "ThreadPool \<Rightarrow> ThreadPool" where
  "unlock p = p\<lparr>held := False\<rparr>"

text \<open>Modelled from the spec: submits one task, the callback with its argument, and
  returns at once.\<close>

definition addTask :: "ThreadPool \<Rightarrow> listener \<Rightarrow> addr \<Rightarrow> ThreadPool" where
  "addTask p f arg = p\<lparr>tasks := tasks p @ [(f, arg)]\<rparr>"

subsection \<open>initCache\<close>

text \<open>
  \<open>initCache\<close> writes the fields of the struct it is given; the name is copied only
  when it is valid. The dynamic memory is not touched. The pool block is taken to be
  allocated (the assertion after \<open>malloc\<close> holds).
\<close>

definition initCache ::
  "nat \<Rightarrow> Cache \<Rightarrow> cstr \<Rightarrow> 8 word \<Rightarrow> 32 word \<Rightarrow> CacheErrCode \<times> Cache" where
  "initCache NAME_MAX cache name maxThreads stackSize =
     (let (errorCode, c1) =
            (case name of
               None \<Rightarrow> (CACHE_NAME_ERROR, cache)
             | Some n \<Rightarrow>
                 if NAME_MAX < length n then (CACHE_NAME_ERROR, cache)
                 else (CACHE_NO_ERR, cache\<lparr>cache_name := n\<rparr>))
      in (errorCode,
          c1\<lparr>has_fn := Some HasData, add_fn := Some AddData, del_fn := Some DelData,
             get_fn := Some GetValue, set_fn := Some SetValue, getSize_fn := Some GetSize,
             dataHead := None, dataTail := None,
             pool := initThreadPool ''cache'' maxThreads stackSize\<rparr>))"

subsection \<open>hasData\<close>

text \<open>The search loop of \<open>hasData\<close>, from the block \<open>data\<close>.\<close>

partial_function (option) hasData_loop ::
  "heap \<Rightarrow> addr \<Rightarrow> string \<Rightarrow> (fault + addr option) option" where
  "hasData_loop h data n =
     (case h data of
        None \<Rightarrow> Some (Inl InvalidDeref)
      | Some d \<Rightarrow>
          if data_name d = n then Some (Inr (Some data))
          else (case data_next d of
                  None \<Rightarrow> Some (Inr None)
                | Some q \<Rightarrow> hasData_loop h q n))"

definition hasData :: "nat \<Rightarrow> Cache \<Rightarrow> cstr \<Rightarrow> (fault + addr option) option" where
  "hasData NAME_MAX cache name =
     (case name of
        None \<Rightarrow> Some (Inl AssertFailed)
      | Some n \<Rightarrow>
          if \<not> length n \<le> NAME_MAX then Some (Inl AssertFailed)
          else (case dataHead cache of
                  None \<Rightarrow> Some (Inr None)
                | Some a \<Rightarrow> hasData_loop (heap cache) a n))"

subsection \<open>addData\<close>

text \<open>
  The three ways in which \<open>addData\<close> links the new block \<open>p\<close> behind the
  list: the list is empty, it has one block (head and tail are the same pointer), or it
  has more.
\<close>

definition addData_link :: "Cache \<Rightarrow> addr \<Rightarrow> fault + Cache" where
  "addData_link c p =
     (case dataHead c of
        None \<Rightarrow> Inr (c\<lparr>dataHead := Some p, dataTail := Some p\<rparr>)
      | Some hp \<Rightarrow>
          if dataHead c = dataTail c then
            (case heap c hp of
               None \<Rightarrow> Inl InvalidDeref
             | Some d \<Rightarrow>
                 Inr (c\<lparr>heap := (heap c)(hp \<mapsto> d\<lparr>data_next := Some p\<rparr>),
                        dataTail := Some p\<rparr>))
          else
            (case dataTail c of
               None \<Rightarrow> Inl NullDeref
             | Some tp \<Rightarrow>
                 (case heap c tp of
                    None \<Rightarrow> Inl InvalidDeref
                  | Some d \<Rightarrow>
                      Inr (c\<lparr>heap := (heap c)(tp \<mapsto> d\<lparr>data_next := Some p\<rparr>),
                             dataTail := Some p\<rparr>))))"

text \<open>
  \<open>addData\<close>. The argument \<open>p\<close> is the address of the block that
  \<open>malloc(sizeof(CacheData))\<close> returns; both allocations are taken to succeed. The
  block is private to the call until it is linked and none of its fields is read before
  it is written, so the model stores the block, filled, where the source links it. On
  the error path \<open>free(data)\<close> returns the block. \<open>memcpy\<close> reads \<open>length\<close>
  units of the caller's buffer \<open>val\<close>.
\<close>

definition addData ::
  "nat \<Rightarrow> nat \<Rightarrow> addr \<Rightarrow> Cache \<Rightarrow> cstr \<Rightarrow> 8 word \<Rightarrow> 16 word list \<Rightarrow> listener option
     \<Rightarrow> (fault + CacheErrCode \<times> Cache) option" where
  "addData NAME_MAX LENGTH_MAX p cache name len val lsn =
     (let c1 = cache\<lparr>pool := lock (pool cache)\<rparr> in
      case hasData NAME_MAX c1 name of
        None \<Rightarrow> None
      | Some (Inl f) \<Rightarrow> Some (Inl f)
      | Some (Inr found) \<Rightarrow>
          (case name of
             None \<Rightarrow> Some (Inl NullDeref)
           | Some n \<Rightarrow>
               (let errorCode = (if found \<noteq> None then CACHE_NAME_ERROR else CACHE_NO_ERR);
                    errorCode = (if errorCode = CACHE_NO_ERR \<and> LENGTH_MAX < unat len
                                 then CACHE_LENGTH_ERROR else errorCode)
                in if errorCode = CACHE_NO_ERR then
                     (if length val < unat len then Some (Inl OutOfBounds)
                      else
                        (let d = \<lparr>data_name = n, data_length = len,
                                  data_value = take (unat len) val,
                                  valueChangedListener = lsn, data_next = None\<rparr>
                         in case addData_link (c1\<lparr>heap := (heap c1)(p \<mapsto> d)\<rparr>) p of
                              Inl f \<Rightarrow> Some (Inl f)
                            | Inr c2 \<Rightarrow>
                                Some (Inr (CACHE_NO_ERR, c2\<lparr>pool := unlock (pool c2)\<rparr>))))
                   else
                     Some (Inr (errorCode,
                                c1\<lparr>heap := (heap c1)(p := None),
                                   pool := unlock (pool c1)\<rparr>)))))"

subsection \<open>delData\<close>

text \<open>
  The search loop of \<open>delData\<close>, entered when the head block has another name. It
  stops at the block \<open>data\<close> whose successor has the name, or at the last block with
  \<open>CACHE_NAME_ERROR\<close>.
\<close>

partial_function (option) delData_loop ::
  "heap \<Rightarrow> addr \<Rightarrow> string \<Rightarrow> (fault + CacheErrCode \<times> addr) option" where
  "delData_loop h data n =
     (case h data of
        None \<Rightarrow> Some (Inl InvalidDeref)
      | Some d \<Rightarrow>
          (case data_next d of
             None \<Rightarrow> Some (Inr (CACHE_NAME_ERROR, data))
           | Some q \<Rightarrow>
               (case h q of
                  None \<Rightarrow> Some (Inl InvalidDeref)
                | Some dn \<Rightarrow>
                    if data_name dn = n then Some (Inr (CACHE_NO_ERR, data))
                    else delData_loop h q n)))"

text \<open>
  The end of \<open>delData\<close>:
  \<open>free(data->value); data->value = NULL; free(data)\<close> on the pointer \<open>data\<close>.
\<close>

definition delData_free :: "Cache \<Rightarrow> addr option \<Rightarrow> fault + Cache" where
  "delData_free c data =
     (case data of
        None \<Rightarrow> Inl NullDeref
      | Some a \<Rightarrow>
          (case heap c a of
             None \<Rightarrow> Inl InvalidDeref
           | Some d \<Rightarrow> Inr (c\<lparr>heap := (heap c)(a := None)\<rparr>)))"

text \<open>
  The unlinking of \<open>delData\<close>, with \<open>data\<close> as the search left it, in the
  source's order: \<open>data\<close> is the head pointer; else the successor of \<open>data\<close> is the
  tail pointer; else the successor is inside the list. In the second branch the source
  writes \<open>NULL\<close> to \<open>data->next\<close> and then reads \<open>data->next\<close> into
  \<open>data\<close>.
\<close>

definition delData_unlink :: "Cache \<Rightarrow> addr \<Rightarrow> fault + Cache" where
  "delData_unlink c data =
     (if Some data = dataHead c then
        (if dataHead c = dataTail c then
           delData_free (c\<lparr>dataHead := None, dataTail := None\<rparr>) (Some data)
         else
           (case heap c data of
              None \<Rightarrow> Inl InvalidDeref
            | Some d \<Rightarrow> delData_free (c\<lparr>dataHead := data_next d\<rparr>) (Some data)))
      else
        (case heap c data of
           None \<Rightarrow> Inl InvalidDeref
         | Some d \<Rightarrow>
             if data_next d = dataTail c then
               (let c1 = c\<lparr>dataTail := Some data\<rparr>;
                    c2 = c1\<lparr>heap := (heap c1)(data \<mapsto> d\<lparr>data_next := None\<rparr>)\<rparr>
                in case heap c2 data of
                     None \<Rightarrow> Inl InvalidDeref
                   | Some d2 \<Rightarrow> delData_free c2 (data_next d2))
             else
               (case data_next d of
                  None \<Rightarrow> Inl NullDeref
                | Some t \<Rightarrow>
                    (case heap c t of
                       None \<Rightarrow> Inl InvalidDeref
                     | Some dt \<Rightarrow>
                         delData_free
                           (c\<lparr>heap := (heap c)(data \<mapsto> d\<lparr>data_next := data_next dt\<rparr>)\<rparr>)
                           (Some t)))))"

definition delData :: "nat \<Rightarrow> Cache \<Rightarrow> cstr \<Rightarrow> (fault + CacheErrCode \<times> Cache) option" where
  "delData NAME_MAX cache name =
     (let c1 = cache\<lparr>pool := lock (pool cache)\<rparr> in
      case name of
        None \<Rightarrow> Some (Inl AssertFailed)
      | Some n \<Rightarrow>
          if \<not> length n \<le> NAME_MAX then Some (Inl AssertFailed)
          else
            (case dataHead c1 of
               None \<Rightarrow> Some (Inr (CACHE_NO_VALUE, c1\<lparr>pool := unlock (pool c1)\<rparr>))
             | Some hp \<Rightarrow>
                 (case heap c1 hp of
                    None \<Rightarrow> Some (Inl InvalidDeref)
                  | Some d \<Rightarrow>
                      (case (if data_name d \<noteq> n then delData_loop (heap c1) hp n
                             else Some (Inr (CACHE_NO_ERR, hp))) of
                         None \<Rightarrow> None
                       | Some (Inl f) \<Rightarrow> Some (Inl f)
                       | Some (Inr (errorCode, data)) \<Rightarrow>
                           if errorCode = CACHE_NO_ERR then
                             (case delData_unlink c1 data of
                                Inl f \<Rightarrow> Some (Inl f)
                              | Inr c2 \<Rightarrow>
                                  Some (Inr (CACHE_NO_ERR, c2\<lparr>pool := unlock (pool c2)\<rparr>)))
                           else
                             Some (Inr (errorCode, c1\<lparr>pool := unlock (pool c1)\<rparr>))))))"

subsection \<open>getValue\<close>

text \<open>
  The copy loop of \<open>getValue\<close>, with its 8-bit counter \<open>i\<close>. \<open>out\<close> is the
  caller's buffer; the loop overwrites its first units and leaves the rest.
\<close>

function getValue_loop ::
  "16 word list \<Rightarrow> 8 word \<Rightarrow> 8 word \<Rightarrow> 16 word list \<Rightarrow> fault + 16 word list" where
  "getValue_loop dataValue len i out =
     (if i < len then
        (if unat i < length dataValue \<and> unat i < length out then
           getValue_loop dataValue len (i + 1) (out[unat i := dataValue ! unat i])
         else Inl OutOfBounds)
      else Inr out)"
  by pat_completeness auto
termination
proof (relation "measure (\<lambda>(dataValue, len, i, out). unat len - unat i)")
  show "wf (measure (\<lambda>(dataValue, len, i, out). unat len - unat i))"
    by simp
next
  fix dataValue :: "16 word list" and len i :: "8 word" and out :: "16 word list"
  assume "i < len"
  then have lt: "unat i < unat len"
    by (simp add: word_less_nat_alt)
  moreover have "unat len < 2 ^ 8"
    using unsigned_less [of len] by simp
  ultimately have "unat i + unat (1 :: 8 word) < 2 ^ LENGTH(8)"
    by simp
  then have "unat (i + 1) = unat i + unat (1 :: 8 word)"
    by (simp only: unat_add_lem [THEN iffD1])
  with lt show "((dataValue, len, i + 1, out[unat i := dataValue ! unat i]), (dataValue, len, i, out))
      \<in> measure (\<lambda>(dataValue, len, i, out). unat len - unat i)"
    by simp
qed

declare getValue_loop.simps [simp del]

definition getValue ::
  "nat \<Rightarrow> Cache \<Rightarrow> cstr \<Rightarrow> 16 word list \<Rightarrow> (fault + CacheErrCode \<times> 16 word list) option" where
  "getValue NAME_MAX cache name out =
     (case hasData NAME_MAX cache name of
        None \<Rightarrow> None
      | Some (Inl f) \<Rightarrow> Some (Inl f)
      | Some (Inr None) \<Rightarrow> Some (Inr (CACHE_NAME_ERROR, out))
      | Some (Inr (Some a)) \<Rightarrow>
          (case heap cache a of
             None \<Rightarrow> Some (Inl InvalidDeref)
           | Some d \<Rightarrow>
               (case getValue_loop (data_value d) (data_length d) 0 out of
                  Inl f \<Rightarrow> Some (Inl f)
                | Inr out' \<Rightarrow> Some (Inr (CACHE_NO_ERR, out')))))"

subsection \<open>setValue\<close>

text \<open>
  The loop of \<open>setValue\<close>: it compares and overwrites the units of the block's
  buffer with those of the caller's buffer \<open>val\<close>, and returns the new content of
  the block's buffer with the flag \<open>isValueChanged\<close>.
\<close>

function setValue_loop ::
  "16 word list \<Rightarrow> 8 word \<Rightarrow> 8 word \<Rightarrow> 16 word list \<Rightarrow> bool
     \<Rightarrow> fault + 16 word list \<times> bool" where
  "setValue_loop dataValue len i val isValueChanged =
     (if i < len then
        (if unat i < length dataValue \<and> unat i < length val then
           setValue_loop (dataValue[unat i := val ! unat i]) len (i + 1) val
             (if dataValue ! unat i \<noteq> val ! unat i then True else isValueChanged)
         else Inl OutOfBounds)
      else Inr (dataValue, isValueChanged))"
  by pat_completeness auto
termination
proof (relation "measure (\<lambda>(dataValue, len, i, val, isValueChanged). unat len - unat i)")
  show "wf (measure (\<lambda>(dataValue, len, i, val, isValueChanged). unat len - unat i))"
    by simp
next
  fix dataValue :: "16 word list" and len i :: "8 word" and val :: "16 word list" and isValueChanged :: bool
  assume "i < len"
  then have lt: "unat i < unat len"
    by (simp add: word_less_nat_alt)
  moreover have "unat len < 2 ^ 8"
    using unsigned_less [of len] by simp
  ultimately have "unat i + unat (1 :: 8 word) < 2 ^ LENGTH(8)"
    by simp
  then have "unat (i + 1) = unat i + unat (1 :: 8 word)"
    by (simp only: unat_add_lem [THEN iffD1])
  with lt show "((dataValue[unat i := val ! unat i], len, i + 1, val, if dataValue ! unat i \<noteq> val ! unat i then True else isValueChanged), (dataValue, len, i, val, isValueChanged))
      \<in> measure (\<lambda>(dataValue, len, i, val, isValueChanged). unat len - unat i)"
    by simp
qed

declare setValue_loop.simps [simp del]

text \<open>
  \<open>setValue\<close>. When the lookup fails the flag is still false, so the second operand
  of \<open>&&\<close>, which reads \<open>data\<close>, is not evaluated.
\<close>

definition setValue ::
  "nat \<Rightarrow> Cache \<Rightarrow> cstr \<Rightarrow> 16 word list \<Rightarrow> (fault + CacheErrCode \<times> Cache) option" where
  "setValue NAME_MAX cache name val =
     (case hasData NAME_MAX cache name of
        None \<Rightarrow> None
      | Some (Inl f) \<Rightarrow> Some (Inl f)
      | Some (Inr None) \<Rightarrow> Some (Inr (CACHE_NAME_ERROR, cache))
      | Some (Inr (Some a)) \<Rightarrow>
          (case heap cache a of
             None \<Rightarrow> Some (Inl InvalidDeref)
           | Some d \<Rightarrow>
               (case setValue_loop (data_value d) (data_length d) 0 val False of
                  Inl f \<Rightarrow> Some (Inl f)
                | Inr (dataValue, isValueChanged) \<Rightarrow>
                    (let c1 = cache\<lparr>heap := (heap cache)(a \<mapsto> d\<lparr>data_value := dataValue\<rparr>)\<rparr>
                     in if isValueChanged then
                          (case valueChangedListener d of
                             None \<Rightarrow> Some (Inr (CACHE_NO_ERR, c1))
                           | Some f \<Rightarrow>
                               Some (Inr (CACHE_NO_ERR, c1\<lparr>pool := addTask (pool c1) f a\<rparr>)))
                        else Some (Inr (CACHE_NO_ERR, c1))))))"

subsection \<open>getSize\<close>

text \<open>
  The loop of \<open>getSize\<close>, with the two 32-bit out-parameters as accumulators;
  \<open>sizeof(uint16_t)\<close> is 2.
\<close>

partial_function (option) getSize_loop ::
  "heap \<Rightarrow> addr option \<Rightarrow> 32 word \<Rightarrow> 32 word \<Rightarrow> (fault + 32 word \<times> 32 word) option" where
  "getSize_loop h data len sz =
     (case data of
        None \<Rightarrow> Some (Inr (len, sz))
      | Some a \<Rightarrow>
          (case h a of
             None \<Rightarrow> Some (Inl InvalidDeref)
           | Some d \<Rightarrow> getSize_loop h (data_next d) (len + 1) (sz + ucast (data_length d) * 2)))"

text \<open>\<open>getSize\<close> returns the error code with the values left in \<open>*length\<close> and
  \<open>*size\<close>.\<close>

definition getSize :: "Cache \<Rightarrow> (fault + CacheErrCode \<times> 32 word \<times> 32 word) option" where
  "getSize cache =
     (case getSize_loop (heap cache) (dataHead cache) 0 0 of
        None \<Rightarrow> None
      | Some (Inl f) \<Rightarrow> Some (Inl f)
      | Some (Inr (len, sz)) \<Rightarrow>
          Some (Inr (if len = 0 then CACHE_NOT_INIT else CACHE_NO_ERR, len, sz)))"

subsection \<open>Well-formed caches\<close>

text \<open>
  \<open>path h p as q\<close>: following the \<open>next\<close> pointers from \<open>p\<close> visits the allocated
  blocks at the addresses \<open>as\<close>, in this order, and arrives at the pointer \<open>q\<close>.
\<close>

fun path :: "heap \<Rightarrow> addr option \<Rightarrow> addr list \<Rightarrow> addr option \<Rightarrow> bool" where
  "path h p [] q = (p = q)"
| "path h p (a # as) q =
     (p = Some a \<and> (case h a of None \<Rightarrow> False | Some d \<Rightarrow> path h (data_next d) as q))"

text \<open>The name stored in the block at an address.\<close>

definition name_at :: "heap \<Rightarrow> addr \<Rightarrow> string" where
  "name_at h a = (case h a of None \<Rightarrow> [] | Some d \<Rightarrow> data_name d)"

text \<open>
  What a block holds for the users of the cache: name, length, value and listener. The
  \<open>next\<close> pointer belongs to the list.
\<close>

definition entry :: "heap \<Rightarrow> addr \<Rightarrow> (string \<times> 8 word \<times> 16 word list \<times> listener option) option" where
  "entry h a =
     (case h a of
        None \<Rightarrow> None
      | Some d \<Rightarrow> Some (data_name d, data_length d, data_value d, valueChangedListener d))"

text \<open>A block as \<open>addData\<close> makes it: the name and the length are within the two
  limits and the buffer has \<open>length\<close> units.\<close>

definition block_ok :: "nat \<Rightarrow> nat \<Rightarrow> heap \<Rightarrow> addr \<Rightarrow> bool" where
  "block_ok NAME_MAX LENGTH_MAX h a =
     (case h a of
        None \<Rightarrow> False
      | Some d \<Rightarrow>
          length (data_name d) \<le> NAME_MAX \<and> unat (data_length d) \<le> LENGTH_MAX \<and>
          length (data_value d) = unat (data_length d))"

text \<open>
  \<open>registry NAME_MAX LENGTH_MAX c as\<close>: the cache \<open>c\<close> holds exactly the entries at the
  addresses \<open>as\<close>, in this order. The list from the head pointer ends in \<open>NULL\<close>,
  no block occurs twice, the tail pointer is \<open>NULL\<close> for the empty list and the last
  block otherwise, no two entries have the same name, and every block is as
  \<open>addData\<close> makes it.
\<close>

definition registry :: "nat \<Rightarrow> nat \<Rightarrow> Cache \<Rightarrow> addr list \<Rightarrow> bool" where
  "registry NAME_MAX LENGTH_MAX c as =
     (path (heap c) (dataHead c) as None \<and> distinct as \<and>
      dataTail c = (if as = [] then None else Some (last as)) \<and>
      distinct (map (name_at (heap c)) as) \<and>
      list_all (block_ok NAME_MAX LENGTH_MAX (heap c)) as)"

text \<open>The first entry with the name \<open>n\<close> among the addresses \<open>as\<close>.\<close>

definition lookup :: "heap \<Rightarrow> addr list \<Rightarrow> string \<Rightarrow> addr option" where
  "lookup h as n = find (\<lambda>a. name_at h a = n) as"

text \<open>The element count stored in the block at an address.\<close>

definition length_at :: "heap \<Rightarrow> addr \<Rightarrow> nat" where
  "length_at h a = (case h a of None \<Rightarrow> 0 | Some d \<Rightarrow> unat (data_length d))"

subsection \<open>A small cache\<close>

text \<open>
  Concrete caches on which the properties below are run, with the limits 20 for names
  and 64 for lengths: the struct before \<open>initCache\<close>, the cache after
  \<open>initCache\<close>, and the caches with the entries \<open>t1\<close>, \<open>t2\<close> and \<open>t3\<close>
  added in this order at the addresses 0, 1 and 2.
\<close>

definition blank :: Cache where
  "blank =
     \<lparr>cache_name = [], has_fn = None, add_fn = None, del_fn = None, get_fn = None,
      set_fn = None, getSize_fn = None, dataHead = None, dataTail = None,
      pool = \<lparr>pool_name = [], maxThreadNum = 0, threadStackSize = 0, held = False,
              tasks = []\<rparr>,
      heap = (\<lambda>a. None)\<rparr>"

definition cache0 :: Cache where
  "cache0 = snd (initCache 20 blank (Some ''edm'') 4 512)"

definition block1 :: CacheData where
  "block1 = \<lparr>data_name = ''t1'', data_length = 2, data_value = [1, 2],
             valueChangedListener = Some 7, data_next = None\<rparr>"

definition block2 :: CacheData where
  "block2 = \<lparr>data_name = ''t2'', data_length = 1, data_value = [5],
             valueChangedListener = None, data_next = None\<rparr>"

definition block3 :: CacheData where
  "block3 = \<lparr>data_name = ''t3'', data_length = 0, data_value = [],
             valueChangedListener = None, data_next = None\<rparr>"

definition cache1 :: Cache where
  "cache1 = cache0\<lparr>dataHead := Some 0, dataTail := Some 0,
                    heap := (heap cache0)(0 \<mapsto> block1)\<rparr>"

definition cache2 :: Cache where
  "cache2 = cache0\<lparr>dataHead := Some 0, dataTail := Some 1,
                    heap := (heap cache0)(0 \<mapsto> block1\<lparr>data_next := Some 1\<rparr>,
                                          1 \<mapsto> block2)\<rparr>"

definition cache3 :: Cache where
  "cache3 = cache0\<lparr>dataHead := Some 0, dataTail := Some 2,
                    heap := (heap cache0)(0 \<mapsto> block1\<lparr>data_next := Some 1\<rparr>,
                                          1 \<mapsto> block2\<lparr>data_next := Some 2\<rparr>,
                                          2 \<mapsto> block3)\<rparr>"

subsection \<open>A large cache\<close>

text \<open>
  \<open>filled_cache k\<close> is the cache with \<open>k\<close> entries of 64 units each, at the
  addresses \<open>0, \<dots>, k - 1\<close> in this order, and \<open>many_cache\<close> the one with
  \<open>many\<close> entries. The name of the entry at \<open>a\<close> is \<open>a\<close> written with four digits to
  the base 128, each digit \<open>d\<close> as the character with the code \<open>d + 1\<close>.
\<close>

definition many :: nat where
  "many = 33554432"

fun digits :: "nat \<Rightarrow> nat \<Rightarrow> nat list" where
  "digits 0 a = []"
| "digits (Suc k) a = a mod 128 # digits k (a div 128)"

definition many_name :: "nat \<Rightarrow> string" where
  "many_name a = map (\<lambda>d. char_of (Suc d)) (digits 4 a)"

definition filled_block :: "nat \<Rightarrow> addr \<Rightarrow> CacheData" where
  "filled_block k a =
     \<lparr>data_name = many_name a, data_length = 64, data_value = replicate 64 0,
      valueChangedListener = None,
      data_next = (if Suc a < k then Some (Suc a) else None)\<rparr>"

definition filled_heap :: "nat \<Rightarrow> heap" where
  "filled_heap k a = (if a < k then Some (filled_block k a) else None)"

definition filled_cache :: "nat \<Rightarrow> Cache" where
  "filled_cache k =
     cache0\<lparr>dataHead := (if k = 0 then None else Some 0),
            dataTail := (if k = 0 then None else Some (k - 1)),
            heap := filled_heap k\<rparr>"

definition many_cache :: Cache where
  "many_cache = filled_cache many"

subsection \<open>Runs of the cache\<close>

text \<open>
  The caches that a sequential client can get: \<open>initCache\<close> on any struct, in any
  dynamic memory, and then calls of the five operations that return. \<open>malloc\<close>
  gives \<open>addData\<close> a block that is not allocated. \<open>getValue\<close> and \<open>getSize\<close>
  return the cache as it is.
\<close>

inductive reachable :: "nat \<Rightarrow> nat \<Rightarrow> Cache \<Rightarrow> bool"
  for NAME_MAX :: nat and LENGTH_MAX :: nat where
  by_initCache:
    "initCache NAME_MAX c0 name maxThreads stackSize = (e, c) \<Longrightarrow>
     reachable NAME_MAX LENGTH_MAX c"
| by_addData:
    "reachable NAME_MAX LENGTH_MAX c \<Longrightarrow> heap c p = None \<Longrightarrow>
     addData NAME_MAX LENGTH_MAX p c name len val lsn = Some (Inr (e, c')) \<Longrightarrow>
     reachable NAME_MAX LENGTH_MAX c'"
| by_delData:
    "reachable NAME_MAX LENGTH_MAX c \<Longrightarrow>
     delData NAME_MAX c name = Some (Inr (e, c')) \<Longrightarrow>
     reachable NAME_MAX LENGTH_MAX c'"
| by_setValue:
    "reachable NAME_MAX LENGTH_MAX c \<Longrightarrow>
     setValue NAME_MAX c name val = Some (Inr (e, c')) \<Longrightarrow>
     reachable NAME_MAX LENGTH_MAX c'"
| by_getValue:
    "reachable NAME_MAX LENGTH_MAX c \<Longrightarrow>
     getValue NAME_MAX c name out = Some (Inr (e, out')) \<Longrightarrow>
     reachable NAME_MAX LENGTH_MAX c"
| by_getSize:
    "reachable NAME_MAX LENGTH_MAX c \<Longrightarrow>
     getSize c = Some (Inr (e, len32, size32)) \<Longrightarrow>
     reachable NAME_MAX LENGTH_MAX c"

section \<open>Properties\<close>

subsection \<open>Lists in the heap\<close>

lemma path_upd_other: "a \<notin> set as \<Longrightarrow> path (h(a := v)) p as q = path h p as q"
  by (induction as arbitrary: p) (auto split: option.splits)

lemma path_append:
  "path h p (as @ bs) q = (\<exists>r. path h p as r \<and> path h r bs q)"
  by (induction as arbitrary: p) (auto split: option.splits)

lemma path_allocated: "path h p as q \<Longrightarrow> a \<in> set as \<Longrightarrow> h a \<noteq> None"
  by (induction as arbitrary: p) (auto split: option.splits)

lemma hasData_loop_path:
  "path h (Some a) (a # as) None \<Longrightarrow> hasData_loop h a n = Some (Inr (lookup h (a # as) n))"
proof (induction as arbitrary: a)
  case Nil
  then show ?case
    by (subst hasData_loop.simps) (auto simp: lookup_def name_at_def split: option.splits)
next
  case (Cons b bs)
  from Cons.prems obtain d where d: "h a = Some d" "data_next d = Some b"
    and rest: "path h (Some b) (b # bs) None"
    by (auto split: option.splits)
  show ?case
  proof (cases "data_name d = n")
    case True
    with d show ?thesis
      by (subst hasData_loop.simps) (simp add: lookup_def name_at_def)
  next
    case False
    with d Cons.IH [OF rest] show ?thesis
      by (subst hasData_loop.simps) (simp add: lookup_def name_at_def)
  qed
qed

lemma hasData_registry:
  assumes "registry NM LM c as" "length n \<le> NM"
  shows "hasData NM c (Some n) = Some (Inr (lookup (heap c) as n))"
proof (cases as)
  case Nil
  with assms show ?thesis by (simp add: registry_def hasData_def lookup_def)
next
  case (Cons a bs)
  with assms have "path (heap c) (Some a) (a # bs) None" "dataHead c = Some a"
    by (auto simp: registry_def)
  with assms Cons show ?thesis
    by (simp add: hasData_def hasData_loop_path)
qed

subsection \<open>The copy loops\<close>

lemma unat_succ_less: "(i::8 word) < len \<Longrightarrow> unat (i + 1) = Suc (unat i)"
proof -
  assume "i < len"
  then have "unat i < unat len" by (simp add: word_less_nat_alt)
  moreover have "unat len < 2 ^ 8" using unsigned_less [of len] by simp
  ultimately have "unat i + unat (1 :: 8 word) < 2 ^ LENGTH(8)" by simp
  then have "unat (i + 1) = unat i + unat (1 :: 8 word)"
    by (simp only: unat_add_lem [THEN iffD1])
  then show ?thesis by simp
qed

lemma getValue_loop_copy:
  "length dv = unat len \<Longrightarrow> unat len \<le> length out \<Longrightarrow> i \<le> len \<Longrightarrow>
   getValue_loop dv len i out =
     Inr (take (unat i) out @ drop (unat i) dv @ drop (unat len) out)"
proof (induction dv len i out rule: getValue_loop.induct)
  case (1 dv len i out)
  show ?case
  proof (cases "i < len")
    case True
    then have lt: "unat i < unat len" by (simp add: word_less_nat_alt)
    have suc: "unat (i + 1) = Suc (unat i)" using True by (rule unat_succ_less)
    have le: "i + 1 \<le> len" using lt suc by (simp add: word_le_nat_alt)
    from lt "1.prems" have b: "unat i < length dv" "unat i < length out" by simp_all
    have ih: "getValue_loop dv len (i + 1) (out[unat i := dv ! unat i]) =
        Inr (take (unat (i + 1)) (out[unat i := dv ! unat i]) @ drop (unat (i + 1)) dv @
             drop (unat len) (out[unat i := dv ! unat i]))"
      using "1.IH" [OF True] b "1.prems" le by simp
    have t: "take (Suc (unat i)) (out[unat i := dv ! unat i]) = take (unat i) out @ [dv ! unat i]"
      using b by (simp add: take_Suc_conv_app_nth)
    have d: "drop (unat len) (out[unat i := dv ! unat i]) = drop (unat len) out"
      using lt by simp
    have c: "drop (unat i) dv = dv ! unat i # drop (Suc (unat i)) dv"
      using b by (simp add: Cons_nth_drop_Suc)
    show ?thesis
      by (subst getValue_loop.simps) (simp add: True b ih suc t d c)
  next
    case False
    with "1.prems" have "unat i = unat len" by (simp add: word_less_nat_alt word_le_nat_alt)
    with "1.prems" False show ?thesis
      by (subst getValue_loop.simps) simp
  qed
qed

lemma setValue_loop_copy:
  "length dv = unat len \<Longrightarrow> unat len \<le> length val \<Longrightarrow> i \<le> len \<Longrightarrow>
   setValue_loop dv len i val ch =
     Inr (take (unat i) dv @ drop (unat i) (take (unat len) val),
          ch \<or> drop (unat i) dv \<noteq> drop (unat i) (take (unat len) val))"
proof (induction dv len i val ch rule: setValue_loop.induct)
  case (1 dv len i val ch)
  let ?tv = "take (unat len) val"
  show ?case
  proof (cases "i < len")
    case True
    then have lt: "unat i < unat len" by (simp add: word_less_nat_alt)
    have suc: "unat (i + 1) = Suc (unat i)" using True by (rule unat_succ_less)
    have le: "i + 1 \<le> len" using lt suc by (simp add: word_le_nat_alt)
    from lt "1.prems" have b: "unat i < length dv" "unat i < length val" by simp_all
    let ?dv' = "dv[unat i := val ! unat i]"
    let ?ch' = "if dv ! unat i \<noteq> val ! unat i then True else ch"
    have ih: "setValue_loop ?dv' len (i + 1) val ?ch' =
        Inr (take (unat (i + 1)) ?dv' @ drop (unat (i + 1)) ?tv,
             ?ch' \<or> drop (unat (i + 1)) ?dv' \<noteq> drop (unat (i + 1)) ?tv)"
      using "1.IH" [OF True] b "1.prems" le by simp
    have tvi: "?tv ! unat i = val ! unat i" using lt by simp
    have ltv: "unat i < length ?tv" using lt "1.prems" by simp
    have t: "take (Suc (unat i)) ?dv' = take (unat i) dv @ [val ! unat i]"
      using b by (simp add: take_Suc_conv_app_nth)
    have d: "drop (Suc (unat i)) ?dv' = drop (Suc (unat i)) dv"
      by simp
    have c1: "drop (unat i) dv = dv ! unat i # drop (Suc (unat i)) dv"
      using b by (simp add: Cons_nth_drop_Suc)
    have c2: "drop (unat i) ?tv = val ! unat i # drop (Suc (unat i)) ?tv"
      using ltv tvi Cons_nth_drop_Suc [OF ltv] by simp
    show ?thesis
      apply (subst setValue_loop.simps)
      apply (simp only: True b if_True simp_thms ih suc t d)
      apply (simp only: c1 c2)
      apply auto
      done
  next
    case False
    with "1.prems" have "unat i = unat len" by (simp add: word_less_nat_alt word_le_nat_alt)
    with "1.prems" False show ?thesis
      by (subst setValue_loop.simps) simp
  qed
qed

subsection \<open>Entries and their blocks\<close>

lemma entry_name_at: "entry h' a = entry h a \<Longrightarrow> name_at h' a = name_at h a"
  by (auto simp: entry_def name_at_def split: option.splits)

lemma entry_block_ok: "entry h' a = entry h a \<Longrightarrow> block_ok NM LM h' a = block_ok NM LM h a"
  by (auto simp: entry_def block_ok_def split: option.splits)

lemma entries_names:
  "map (entry h') as = map (entry h) as \<Longrightarrow> map (name_at h') as = map (name_at h) as"
  by (induction as) (auto dest: entry_name_at)

lemma entries_blocks_ok:
  "map (entry h') as = map (entry h) as \<Longrightarrow>
   list_all (block_ok NM LM h') as = list_all (block_ok NM LM h) as"
  by (induction as) (auto dest: entry_block_ok)

lemma lookup_None: "lookup h as n = None \<longleftrightarrow> n \<notin> set (map (name_at h) as)"
  by (auto simp: lookup_def find_None_iff)

lemma path_last_next:
  "path h p as None \<Longrightarrow> as \<noteq> [] \<Longrightarrow> \<exists>d. h (last as) = Some d \<and> data_next d = None"
  by (induction as arbitrary: p) (auto split: option.splits)

lemma path_butlast:
  "path h p as None \<Longrightarrow> as \<noteq> [] \<Longrightarrow> path h p (butlast as) (Some (last as))"
  by (induction as arbitrary: p) (auto split: option.splits)

lemma path_snoc:
  assumes p: "path h hp as None" and ne: "as \<noteq> []" and dist: "distinct as"
    and t: "h (last as) = Some dl" and fresh: "h p = None" and nx: "data_next d = None"
  shows "path ((h(p \<mapsto> d))(last as \<mapsto> dl\<lparr>data_next := Some p\<rparr>)) hp (as @ [p]) None"
proof -
  let ?t = "last as"
  let ?h = "(h(p \<mapsto> d))(?t \<mapsto> dl\<lparr>data_next := Some p\<rparr>)"
  have as: "as = butlast as @ [?t]" using ne by simp
  have pt: "p \<noteq> ?t" using t fresh by auto
  have "p \<notin> set (butlast as)"
    using path_allocated [OF p, of p] fresh by (auto dest: in_set_butlastD)
  moreover have "?t \<notin> set (butlast as)"
  proof -
    from dist ne have "distinct (butlast as @ [?t])" by simp
    then show ?thesis by simp
  qed
  ultimately have "path ?h hp (butlast as) (Some ?t)"
    using path_butlast [OF p ne] by (simp add: path_upd_other)
  moreover have "path ?h (Some ?t) [?t, p] None"
    using pt nx by simp
  ultimately have "path ?h hp (butlast as @ [?t, p]) None"
    by (auto simp: path_append)
  moreover have "butlast as @ [?t, p] = as @ [p]"
    using as by (metis append.assoc append_Cons append_Nil)
  ultimately show ?thesis by simp
qed

subsection \<open>addData on a well-formed cache\<close>

lemma addData_link_empty:
  "dataHead c = None \<Longrightarrow> addData_link c p = Inr (c\<lparr>dataHead := Some p, dataTail := Some p\<rparr>)"
  by (simp add: addData_link_def)

lemma addData_link_nonempty:
  assumes "dataHead c = Some a" "dataTail c = Some t" "heap c t = Some dl"
    and "heap c a \<noteq> None"
  shows "addData_link c p =
    Inr (c\<lparr>heap := (heap c)(t \<mapsto> dl\<lparr>data_next := Some p\<rparr>), dataTail := Some p\<rparr>)"
  using assms by (auto simp: addData_link_def)

text \<open>What a successful \<open>addData\<close> does to a well-formed cache.\<close>

lemma addData_success:
  assumes reg: "registry NM LM c as"
    and nm: "length n \<le> NM" and new: "n \<notin> set (map (name_at (heap c)) as)"
    and len: "unat len \<le> LM" and buf: "unat len \<le> length val"
    and fresh: "heap c p = None"
  shows "\<exists>c'. addData NM LM p c (Some n) len val lsn = Some (Inr (CACHE_NO_ERR, c')) \<and>
      registry NM LM c' (as @ [p]) \<and>
      entry (heap c') p = Some (n, len, take (unat len) val, lsn) \<and>
      map (entry (heap c')) as = map (entry (heap c)) as \<and>
      (\<forall>x. x \<notin> set as \<longrightarrow> x \<noteq> p \<longrightarrow> heap c' x = heap c x) \<and>
      pool c' = unlock (lock (pool c))"
proof -
  let ?c1 = "c\<lparr>pool := lock (pool c)\<rparr>"
  let ?d = "\<lparr>data_name = n, data_length = len, data_value = take (unat len) val,
             valueChangedListener = lsn, data_next = None\<rparr>"
  let ?c2 = "?c1\<lparr>heap := (heap ?c1)(p \<mapsto> ?d)\<rparr>"
  have reg1: "registry NM LM ?c1 as" using reg by (simp add: registry_def)
  have has: "hasData NM ?c1 (Some n) = Some (Inr None)"
    using hasData_registry [OF reg1 nm] new by (simp add: lookup_None)
  have run: "addData NM LM p c (Some n) len val lsn =
      (case addData_link ?c2 p of
         Inl f \<Rightarrow> Some (Inl f)
       | Inr c3 \<Rightarrow> Some (Inr (CACHE_NO_ERR, c3\<lparr>pool := unlock (pool c3)\<rparr>)))"
    using has len buf by (simp add: addData_def Let_def)
  from reg have pth: "path (heap c) (dataHead c) as None" and dist: "distinct as"
    and tl: "dataTail c = (if as = [] then None else Some (last as))"
    and nms: "distinct (map (name_at (heap c)) as)"
    and oks: "list_all (block_ok NM LM (heap c)) as"
    by (simp_all add: registry_def)
  have pnotin: "p \<notin> set as" using path_allocated [OF pth, of p] fresh by auto
  have okp: "\<And>h. h p = Some ?d \<Longrightarrow> block_ok NM LM h p"
    using nm len buf by (simp add: block_ok_def)
  show ?thesis
  proof (cases "as = []")
    case True
    then have hd: "dataHead ?c2 = None" using pth by simp
    show ?thesis
      unfolding run addData_link_empty [OF hd]
      using True by (simp add: registry_def entry_def name_at_def okp)
  next
    case False
    then obtain a bs where as: "as = a # bs" by (cases as) auto
    from path_last_next [OF pth False] obtain dl
      where dl: "heap c (last as) = Some dl" "data_next dl = None" by auto
    have pl: "p \<noteq> last as" using dl fresh by auto
    have hd: "dataHead ?c2 = Some a" using pth as by simp
    have tl2: "dataTail ?c2 = Some (last as)" using tl False by simp
    have hl: "heap ?c2 (last as) = Some dl" using dl pl by simp
    have ha: "heap ?c2 a \<noteq> None" using path_allocated [OF pth, of a] as pnotin by auto
    let ?h = "((heap c)(p \<mapsto> ?d))(last as \<mapsto> dl\<lparr>data_next := Some p\<rparr>)"
    have pth': "path ?h (dataHead c) (as @ [p]) None"
      using path_snoc [OF pth False dist dl(1) fresh, of ?d] by simp
    have ent: "map (entry ?h) as = map (entry (heap c)) as"
    proof (rule map_cong [OF refl])
      fix x assume "x \<in> set as"
      then have "x \<noteq> p" using pnotin by auto
      then show "entry ?h x = entry (heap c) x"
        using dl(1) by (auto simp: entry_def)
    qed
    have hp: "?h p = Some ?d" using pl by simp
    have np: "name_at ?h p = n" using hp by (simp only: name_at_def option.case) simp
    have nms': "distinct (map (name_at ?h) (as @ [p]))"
      using nms new np by (simp only: map_append entries_names [OF ent]) simp
    have oks': "list_all (block_ok NM LM ?h) (as @ [p])"
      using oks okp [of ?h, OF hp]
      by (simp only: list_all_append entries_blocks_ok [OF ent]) simp
    have "registry NM LM (c\<lparr>heap := ?h, dataTail := Some p, pool := unlock (lock (pool c))\<rparr>)
        (as @ [p])"
      using pth' dist pnotin nms' oks' by (simp add: registry_def)
    moreover have "\<forall>x. x \<notin> set as \<longrightarrow> x \<noteq> p \<longrightarrow> ?h x = heap c x"
      using False by auto
    ultimately show ?thesis
      unfolding run addData_link_nonempty [OF hd tl2 hl ha]
      using ent hp by (simp add: entry_def)
  qed
qed

subsection \<open>delData on a well-formed cache\<close>

lemma delData_loop_absent:
  "path h (Some a) (a # as) None \<Longrightarrow> n \<notin> set (map (name_at h) as) \<Longrightarrow>
   delData_loop h a n = Some (Inr (CACHE_NAME_ERROR, last (a # as)))"
proof (induction as arbitrary: a)
  case Nil
  then show ?case
    by (subst delData_loop.simps) (auto split: option.splits)
next
  case (Cons b bs)
  from Cons.prems(1) obtain d db where d: "h a = Some d" "data_next d = Some b" "h b = Some db"
    and rest: "path h (Some b) (b # bs) None"
    by (auto split: option.splits)
  from Cons.prems(2) d have nb: "data_name db \<noteq> n" and nbs: "n \<notin> set (map (name_at h) bs)"
    by (auto simp: name_at_def)
  show ?case
    using d nb Cons.IH [OF rest nbs]
    by (subst delData_loop.simps) simp
qed

lemma delData_loop_found:
  "path h (Some a) (a # pre @ t # post) q \<Longrightarrow> n \<notin> set (map (name_at h) pre) \<Longrightarrow>
   name_at h t = n \<Longrightarrow>
   delData_loop h a n = Some (Inr (CACHE_NO_ERR, last (a # pre)))"
proof (induction pre arbitrary: a)
  case Nil
  then show ?case
    by (subst delData_loop.simps) (auto simp: name_at_def split: option.splits)
next
  case (Cons b bs)
  from Cons.prems(1) obtain d db where d: "h a = Some d" "data_next d = Some b" "h b = Some db"
    and rest: "path h (Some b) (b # bs @ t # post) q"
    by (auto split: option.splits)
  from Cons.prems(2) d have nb: "data_name db \<noteq> n" and nbs: "n \<notin> set (map (name_at h) bs)"
    by (auto simp: name_at_def)
  show ?case
    using d nb Cons.IH [OF rest nbs Cons.prems(3)]
    by (subst delData_loop.simps) simp
qed

lemma delData_empty:
  assumes "registry NM LM c []" "length n \<le> NM"
  shows "delData NM c (Some n) = Some (Inr (CACHE_NO_VALUE, c\<lparr>pool := unlock (lock (pool c))\<rparr>))"
  using assms by (simp add: delData_def registry_def)

lemma delData_absent:
  assumes reg: "registry NM LM c as" and ne: "as \<noteq> []" and nm: "length n \<le> NM"
    and absent: "n \<notin> set (map (name_at (heap c)) as)"
  shows "delData NM c (Some n) =
    Some (Inr (CACHE_NAME_ERROR, c\<lparr>pool := unlock (lock (pool c))\<rparr>))"
proof -
  from ne obtain a bs where as: "as = a # bs" by (cases as) auto
  from reg as have pth: "path (heap c) (Some a) (a # bs) None" and hd: "dataHead c = Some a"
    by (simp_all add: registry_def)
  from pth obtain d where d: "heap c a = Some d" by (auto split: option.splits)
  from absent as d have na: "data_name d \<noteq> n" and nbs: "n \<notin> set (map (name_at (heap c)) bs)"
    by (auto simp: name_at_def)
  show ?thesis
    using nm hd d na delData_loop_absent [OF pth nbs]
    by (simp add: delData_def)
qed

lemma registry_rest:
  assumes reg: "registry NM LM c (a # rest)"
    and h': "heap c' = (heap c)(a := None)"
    and hd': "path (heap c) (dataHead c') rest None"
    and tl': "dataTail c' = (if rest = [] then None else dataTail c)"
  shows "registry NM LM c' rest \<and> map (entry (heap c')) rest = map (entry (heap c)) rest"
proof -
  from reg have dist: "distinct (a # rest)"
    and tl: "dataTail c = Some (last (a # rest))"
    and nms: "distinct (map (name_at (heap c)) (a # rest))"
    and oks: "list_all (block_ok NM LM (heap c)) (a # rest)"
    by (simp_all add: registry_def)
  have a: "a \<notin> set rest" using dist by simp
  have ent: "map (entry (heap c')) rest = map (entry (heap c)) rest"
  proof (rule map_cong [OF refl])
    fix x assume "x \<in> set rest"
    then have "x \<noteq> a" using a by auto
    then show "entry (heap c') x = entry (heap c) x"
      by (simp add: h' entry_def)
  qed
  have "path (heap c') (dataHead c') rest None"
    using hd' a by (simp add: h' path_upd_other)
  moreover have "dataTail c' = (if rest = [] then None else Some (last rest))"
    using tl tl' by simp
  moreover have "distinct (map (name_at (heap c')) rest)"
    using nms by (simp only: entries_names [OF ent]) simp
  moreover have "list_all (block_ok NM LM (heap c')) rest"
    using oks by (simp only: entries_blocks_ok [OF ent]) simp
  ultimately show ?thesis
    using dist ent by (simp add: registry_def)
qed

lemma delData_unlink_head:
  assumes reg: "registry NM LM c (a # rest)"
  shows "\<exists>c'. delData_unlink c a = Inr c' \<and> heap c' = (heap c)(a := None) \<and>
      path (heap c) (dataHead c') rest None \<and>
      dataTail c' = (if rest = [] then None else dataTail c) \<and> pool c' = pool c"
proof -
  from reg have pth: "path (heap c) (dataHead c) (a # rest) None"
    and dist: "distinct (a # rest)"
    and tl: "dataTail c = Some (last (a # rest))"
    by (simp_all add: registry_def)
  from pth obtain d where hd: "dataHead c = Some a" and d: "heap c a = Some d"
    and rest: "path (heap c) (data_next d) rest None"
    by (auto split: option.splits)
  show ?thesis
  proof (cases "rest = []")
    case True
    with hd tl d show ?thesis
      by (simp add: delData_unlink_def delData_free_def)
  next
    case False
    then have "last rest \<in> set rest" by simp
    with dist have "last rest \<noteq> a" by auto
    with False tl hd have "dataHead c \<noteq> dataTail c" by simp
    with hd d rest False show ?thesis
      by (simp add: delData_unlink_def delData_free_def)
  qed
qed

text \<open>
  \<open>delData\<close> removes the head block when the head has the name, and also when the
  block after the head has it: the search then stops at the head, and the unlinking
  takes the block the search stopped at for the one to remove.
\<close>

lemma delData_removes_head:
  assumes reg: "registry NM LM c (a # rest)" and nm: "length n \<le> NM"
    and hit: "name_at (heap c) a = n \<or> (rest \<noteq> [] \<and> name_at (heap c) (hd rest) = n)"
  shows "\<exists>c'. delData NM c (Some n) = Some (Inr (CACHE_NO_ERR, c')) \<and>
      registry NM LM c' rest \<and> heap c' = (heap c)(a := None) \<and>
      map (entry (heap c')) rest = map (entry (heap c)) rest \<and>
      pool c' = unlock (lock (pool c))"
proof -
  let ?c1 = "c\<lparr>pool := lock (pool c)\<rparr>"
  have reg1: "registry NM LM ?c1 (a # rest)" using reg by (simp add: registry_def)
  from reg have pth: "path (heap c) (Some a) (a # rest) None" and hd: "dataHead c = Some a"
    by (simp_all add: registry_def)
  from pth obtain d where d: "heap c a = Some d" by (auto split: option.splits)
  have search: "(if data_name d \<noteq> n then delData_loop (heap c) a n
                 else Some (Inr (CACHE_NO_ERR, a))) = Some (Inr (CACHE_NO_ERR, a))"
  proof (cases "data_name d = n")
    case True
    then show ?thesis by simp
  next
    case False
    with hit d obtain t post where r: "rest = t # post" and t: "name_at (heap c) t = n"
      by (cases rest) (auto simp: name_at_def)
    have "path (heap c) (Some a) (a # [] @ t # post) None" using pth r by simp
    from delData_loop_found [OF this _ t] False show ?thesis by simp
  qed
  from delData_unlink_head [OF reg1] obtain c2 where
    un: "delData_unlink ?c1 a = Inr c2" and h2: "heap c2 = (heap c)(a := None)"
    and p2: "path (heap c) (dataHead c2) rest None"
    and t2: "dataTail c2 = (if rest = [] then None else dataTail c)"
    and pl2: "pool c2 = lock (pool c)"
    by auto
  let ?c' = "c2\<lparr>pool := unlock (pool c2)\<rparr>"
  have run: "delData NM c (Some n) = Some (Inr (CACHE_NO_ERR, ?c'))"
    using nm hd d search un by (auto simp: delData_def Let_def split: if_splits)
  have "registry NM LM ?c' rest \<and> map (entry (heap ?c')) rest = map (entry (heap c)) rest"
    by (rule registry_rest [OF reg]) (simp_all add: h2 p2 t2)
  with run h2 pl2 show ?thesis by simp
qed

lemma path_split:
  "path h p (xs @ y # ys) q \<Longrightarrow>
   \<exists>d. path h p xs (Some y) \<and> h y = Some d \<and> path h (data_next d) ys q"
  by (auto simp: path_append split: option.splits)

lemma path_join:
  "path h p xs (Some y) \<Longrightarrow> h y = Some d \<Longrightarrow> path h (data_next d) ys q \<Longrightarrow>
   path h p (xs @ y # ys) q"
  by (auto simp: path_append)

text \<open>The search of \<open>delData\<close> for a name that is at the third block or later stops
  at the block before it.\<close>

lemma delData_search_inner:
  assumes reg: "registry NM LM c (front @ data # t # post)" and fr: "front \<noteq> []"
    and absent: "n \<notin> set (map (name_at (heap c)) (front @ [data]))"
    and t: "name_at (heap c) t = n"
  shows "\<exists>a d. dataHead c = Some a \<and> heap c a = Some d \<and> data_name d \<noteq> n \<and> a \<noteq> data \<and>
    delData_loop (heap c) a n = Some (Inr (CACHE_NO_ERR, data))"
proof -
  from fr obtain a fs where front: "front = a # fs" by (cases front) auto
  from reg front have pth: "path (heap c) (Some a) (a # (fs @ [data]) @ t # post) None"
    and hd: "dataHead c = Some a" and dist: "distinct (front @ data # t # post)"
    by (simp_all add: registry_def)
  from pth obtain d where d: "heap c a = Some d" by (auto split: option.splits)
  from absent front d have na: "data_name d \<noteq> n"
    and nfs: "n \<notin> set (map (name_at (heap c)) (fs @ [data]))"
    by (auto simp: name_at_def)
  have "a \<noteq> data" using dist front by auto
  moreover have "delData_loop (heap c) a n = Some (Inr (CACHE_NO_ERR, data))"
    using delData_loop_found [OF pth nfs t] by simp
  ultimately show ?thesis using hd d na by simp
qed

text \<open>The third branch of the unlinking: the block after \<open>data\<close> is inside the list.\<close>

lemma delData_unlink_inner:
  assumes reg: "registry NM LM c (front @ data # t # post)" and fr: "front \<noteq> []"
    and po: "post \<noteq> []"
  shows "\<exists>c'. delData_unlink c data = Inr c' \<and>
      registry NM LM c' (front @ data # post) \<and>
      map (entry (heap c')) (front @ data # post) = map (entry (heap c)) (front @ data # post) \<and>
      heap c' t = None \<and> pool c' = pool c"
proof -
  let ?as = "front @ data # t # post"
  from reg have pth: "path (heap c) (dataHead c) ?as None"
    and dist: "distinct ?as"
    and tl: "dataTail c = Some (last ?as)"
    and nms: "distinct (map (name_at (heap c)) ?as)"
    and oks: "list_all (block_ok NM LM (heap c)) ?as"
    by (simp_all add: registry_def)
  from path_split [OF pth] obtain d where p1: "path (heap c) (dataHead c) front (Some data)"
    and d: "heap c data = Some d" and p2: "path (heap c) (data_next d) (t # post) None"
    by auto
  from p2 obtain dt where nd: "data_next d = Some t" and dt: "heap c t = Some dt"
    and p3: "path (heap c) (data_next dt) post None"
    by (auto split: option.splits)
  from fr obtain a fs where front: "front = a # fs" by (cases front) auto
  have hd: "dataHead c = Some a" using p1 front by simp
  have nh: "Some data \<noteq> dataHead c" using hd dist front by auto
  have "last ?as = last post" using po by simp
  moreover have "last post \<in> set post" using po by simp
  ultimately have nt: "data_next d \<noteq> dataTail c" using tl nd dist by auto
  let ?h1 = "(heap c)(data \<mapsto> d\<lparr>data_next := data_next dt\<rparr>)"
  let ?h = "?h1(t := None)"
  let ?c' = "c\<lparr>heap := ?h\<rparr>"
  have td: "t \<noteq> data" using dist by auto
  have run: "delData_unlink c data = Inr ?c'"
    using nh nt d nd dt td by (simp add: delData_unlink_def delData_free_def)
  have "data \<notin> set front" "t \<notin> set front" using dist by auto
  then have q1: "path ?h (dataHead c) front (Some data)"
    using p1 by (simp add: path_upd_other)
  have "data \<notin> set post" "t \<notin> set post" using dist by auto
  then have q3: "path ?h (data_next dt) post None"
    using p3 by (simp add: path_upd_other)
  have q2: "?h data = Some (d\<lparr>data_next := data_next dt\<rparr>)" using td by simp
  have "path ?h (data_next (d\<lparr>data_next := data_next dt\<rparr>)) post None"
    using q3 by simp
  then have pth': "path ?h (dataHead c) (front @ data # post) None"
    by (rule path_join [OF q1 q2])
  have ent: "map (entry ?h) (front @ data # post) = map (entry (heap c)) (front @ data # post)"
  proof (rule map_cong [OF refl])
    fix x assume "x \<in> set (front @ data # post)"
    then have "x \<noteq> t" using dist by auto
    then show "entry ?h x = entry (heap c) x"
      using d by (auto simp: entry_def)
  qed
  have nms': "distinct (map (name_at ?h) (front @ data # post))"
    using nms by (simp only: entries_names [OF ent]) auto
  have oks': "list_all (block_ok NM LM ?h) (front @ data # post)"
    using oks by (simp only: entries_blocks_ok [OF ent]) simp
  have "registry NM LM ?c' (front @ data # post)"
    using pth' dist tl po nms' oks' by (simp add: registry_def)
  with run ent show ?thesis by simp
qed

text \<open>The second branch of the unlinking: the block after \<open>data\<close> is the tail. The
  source clears \<open>data->next\<close>, reads it back into \<open>data\<close> and dereferences it.\<close>

lemma delData_unlink_tail:
  assumes reg: "registry NM LM c (front @ [data, t])" and fr: "front \<noteq> []"
  shows "delData_unlink c data = Inl NullDeref"
proof -
  let ?as = "front @ [data, t]"
  from reg have pth: "path (heap c) (dataHead c) (front @ data # [t]) None"
    and dist: "distinct ?as"
    and tl: "dataTail c = Some t"
    by (simp_all add: registry_def)
  from path_split [OF pth] obtain d where p1: "path (heap c) (dataHead c) front (Some data)"
    and d: "heap c data = Some d" and p2: "path (heap c) (data_next d) [t] None"
    by auto
  from p2 have nd: "data_next d = Some t" by simp
  from fr obtain a fs where front: "front = a # fs" by (cases front) auto
  have hd: "dataHead c = Some a" using p1 front by simp
  have nh: "Some data \<noteq> dataHead c" using hd dist front by auto
  show ?thesis
    using nh d nd tl by (simp add: delData_unlink_def delData_free_def)
qed

lemma delData_run:
  assumes "length n \<le> NM" "dataHead c = Some a" "heap c a = Some d" "data_name d \<noteq> n"
    and "delData_loop (heap c) a n = Some (Inr (CACHE_NO_ERR, data))"
  shows "delData NM c (Some n) =
    (case delData_unlink (c\<lparr>pool := lock (pool c)\<rparr>) data of
       Inl f \<Rightarrow> Some (Inl f)
     | Inr c2 \<Rightarrow> Some (Inr (CACHE_NO_ERR, c2\<lparr>pool := unlock (pool c2)\<rparr>)))"
  using assms by (simp add: delData_def Let_def)

lemma registry_pool: "registry NM LM (c\<lparr>pool := p\<rparr>) as = registry NM LM c as"
  by (simp add: registry_def)

lemma delData_removes_inner:
  assumes reg: "registry NM LM c (front @ data # t # post)" and fr: "front \<noteq> []"
    and po: "post \<noteq> []" and nm: "length n \<le> NM"
    and absent: "n \<notin> set (map (name_at (heap c)) (front @ [data]))"
    and t: "name_at (heap c) t = n"
  shows "\<exists>c'. delData NM c (Some n) = Some (Inr (CACHE_NO_ERR, c')) \<and>
      registry NM LM c' (front @ data # post) \<and>
      map (entry (heap c')) (front @ data # post) = map (entry (heap c)) (front @ data # post) \<and>
      heap c' t = None \<and> pool c' = unlock (lock (pool c))"
proof -
  let ?c1 = "c\<lparr>pool := lock (pool c)\<rparr>"
  from delData_search_inner [OF reg fr absent t] obtain a d where
    s: "dataHead c = Some a" "heap c a = Some d" "data_name d \<noteq> n"
      "delData_loop (heap c) a n = Some (Inr (CACHE_NO_ERR, data))"
    by auto
  have reg1: "registry NM LM ?c1 (front @ data # t # post)"
    using reg by (simp only: registry_pool)
  from delData_unlink_inner [OF reg1 fr po] obtain c2 where
    un: "delData_unlink ?c1 data = Inr c2"
    and r2: "registry NM LM c2 (front @ data # post)"
    and e2: "map (entry (heap c2)) (front @ data # post) =
             map (entry (heap c)) (front @ data # post)"
    and h2: "heap c2 t = None" and p2: "pool c2 = lock (pool c)"
    by auto
  have "delData NM c (Some n) = Some (Inr (CACHE_NO_ERR, c2\<lparr>pool := unlock (pool c2)\<rparr>))"
    by (simp add: delData_run [OF nm s] un)
  with r2 e2 h2 p2 show ?thesis by (simp add: registry_pool)
qed

lemma delData_tail_faults:
  assumes reg: "registry NM LM c (front @ [data, t])" and fr: "front \<noteq> []"
    and nm: "length n \<le> NM"
    and absent: "n \<notin> set (map (name_at (heap c)) (front @ [data]))"
    and t: "name_at (heap c) t = n"
  shows "delData NM c (Some n) = Some (Inl NullDeref)"
proof -
  let ?c1 = "c\<lparr>pool := lock (pool c)\<rparr>"
  have reg': "registry NM LM c (front @ data # t # [])" using reg by simp
  from delData_search_inner [OF reg' fr absent t] obtain a d where
    s: "dataHead c = Some a" "heap c a = Some d" "data_name d \<noteq> n"
      "delData_loop (heap c) a n = Some (Inr (CACHE_NO_ERR, data))"
    by auto
  have reg1: "registry NM LM ?c1 (front @ [data, t])"
    using reg by (simp only: registry_pool)
  show ?thesis
    by (simp add: delData_run [OF nm s] delData_unlink_tail [OF reg1 fr])
qed

subsection \<open>Lookup, getValue, setValue and getSize on a well-formed cache\<close>

lemma lookup_present:
  "distinct (map (name_at h) as) \<Longrightarrow> a \<in> set as \<Longrightarrow> lookup h as (name_at h a) = Some a"
  by (induction as) (auto simp: lookup_def)

lemma lookup_Some:
  "lookup h as n = Some a \<Longrightarrow> a \<in> set as \<and> name_at h a = n"
  unfolding lookup_def by (induction as) (auto split: if_splits)

lemma registry_block:
  "registry NM LM c as \<Longrightarrow> a \<in> set as \<Longrightarrow>
   \<exists>d. heap c a = Some d \<and> length (data_name d) \<le> NM \<and> unat (data_length d) \<le> LM \<and>
       length (data_value d) = unat (data_length d)"
  by (auto simp: registry_def list_all_iff block_ok_def split: option.splits)

lemma getValue_present:
  assumes reg: "registry NM LM c as" and a: "a \<in> set as" and d: "heap c a = Some d"
    and out: "unat (data_length d) \<le> length out"
  shows "getValue NM c (Some (data_name d)) out =
    Some (Inr (CACHE_NO_ERR, data_value d @ drop (unat (data_length d)) out))"
proof -
  from registry_block [OF reg a] d have nm: "length (data_name d) \<le> NM"
    and len: "length (data_value d) = unat (data_length d)"
    by auto
  from reg have "distinct (map (name_at (heap c)) as)" by (simp add: registry_def)
  from lookup_present [OF this a] d have "lookup (heap c) as (data_name d) = Some a"
    by (simp add: name_at_def)
  then have has: "hasData NM c (Some (data_name d)) = Some (Inr (Some a))"
    by (simp add: hasData_registry [OF reg nm])
  have "getValue_loop (data_value d) (data_length d) 0 out =
      Inr (data_value d @ drop (unat (data_length d)) out)"
    using getValue_loop_copy [OF len out, of 0] by simp
  with has d show ?thesis by (simp add: getValue_def)
qed

lemma setValue_loop_length:
  "setValue_loop dv len i val ch = Inr (dv', ch') \<Longrightarrow> length dv' = length dv"
proof (induction dv len i val ch rule: setValue_loop.induct)
  case (1 dv len i val ch)
  show ?case
  proof (cases "i < len")
    case True
    with "1.prems" have b: "unat i < length dv \<and> unat i < length val"
      by (subst (asm) setValue_loop.simps) (auto split: if_splits)
    with True "1.prems" have
      "setValue_loop (dv[unat i := val ! unat i]) len (i + 1) val
         (if dv ! unat i \<noteq> val ! unat i then True else ch) = Inr (dv', ch')"
      by (subst (asm) setValue_loop.simps) simp
    from "1.IH" [OF True b this] show ?thesis by simp
  next
    case False
    with "1.prems" show ?thesis
      by (subst (asm) setValue_loop.simps) simp
  qed
qed

lemma take_differs:
  "length xs = k \<Longrightarrow> k \<le> length ys \<Longrightarrow> (take k ys \<noteq> xs) = (\<exists>i<k. ys ! i \<noteq> xs ! i)"
  by (auto simp: list_eq_iff_nth_eq)

lemma path_upd_value:
  "h a = Some d \<Longrightarrow> path (h(a \<mapsto> d\<lparr>data_value := v\<rparr>)) p as q = path h p as q"
  by (induction as arbitrary: p) (auto split: option.splits)

lemma registry_set_value:
  assumes reg: "registry NM LM c as" and d: "heap c a = Some d"
    and len: "length v = length (data_value d)"
  shows "registry NM LM (c\<lparr>heap := (heap c)(a \<mapsto> d\<lparr>data_value := v\<rparr>)\<rparr>) as"
proof -
  let ?h = "(heap c)(a \<mapsto> d\<lparr>data_value := v\<rparr>)"
  have nm: "\<And>x. name_at ?h x = name_at (heap c) x"
    using d by (simp add: name_at_def)
  have ok: "\<And>x. block_ok NM LM ?h x = block_ok NM LM (heap c) x"
    using d len by (simp add: block_ok_def)
  have names: "map (name_at ?h) as = map (name_at (heap c)) as"
    by (rule map_cong [OF refl]) (rule nm)
  have oks: "list_all (block_ok NM LM ?h) as = list_all (block_ok NM LM (heap c)) as"
    by (rule list.pred_cong [OF refl]) (rule ok)
  have "path ?h (dataHead c) as None"
    using reg d by (simp add: registry_def path_upd_value)
  moreover have "distinct (map (name_at ?h) as)"
    using reg by (simp only: names) (simp add: registry_def)
  moreover have "list_all (block_ok NM LM ?h) as"
    using reg by (simp only: oks) (simp add: registry_def)
  ultimately show ?thesis
    using reg by (simp add: registry_def)
qed

text \<open>The element counts of the entries, and what the loop of \<open>getSize\<close> adds up.\<close>

lemma getSize_loop_path:
  "path h p as None \<Longrightarrow>
   getSize_loop h p len sz =
     Some (Inr (len + word_of_nat (length as), sz + word_of_nat (2 * sum_list (map (length_at h) as))))"
proof (induction as arbitrary: p len sz)
  case Nil
  then show ?case by (subst getSize_loop.simps) simp
next
  case (Cons a as)
  from Cons.prems obtain d where p: "p = Some a" and d: "h a = Some d"
    and rest: "path h (data_next d) as None"
    by (auto split: option.splits)
  have u: "(ucast (data_length d) :: 32 word) = word_of_nat (unat (data_length d))"
    by simp
  have la: "length_at h a = unat (data_length d)"
    using d by (simp add: length_at_def)
  show ?case
    using p d Cons.IH [OF rest]
    by (subst getSize_loop.simps) (simp add: la u algebra_simps del: of_nat_unat)
qed

lemma getSize_path:
  assumes "path (heap c) (dataHead c) as None"
  shows "getSize c =
    Some (Inr (if (word_of_nat (length as) :: 32 word) = 0 then CACHE_NOT_INIT else CACHE_NO_ERR,
               word_of_nat (length as),
               word_of_nat (2 * sum_list (map (length_at (heap c)) as))))"
  using getSize_loop_path [OF assms, of 0 0] by (simp add: getSize_def)

subsection \<open>The small caches\<close>

lemmas small_defs = blank_def cache0_def cache1_def cache2_def cache3_def
  block1_def block2_def block3_def initCache_def initThreadPool_def

lemmas registry_eval = registry_def block_ok_def name_at_def

lemma small_registries:
  "registry 20 64 cache0 []" "registry 20 64 cache1 [0]"
  "registry 20 64 cache2 [0, 1]" "registry 20 64 cache3 [0, 1, 2]"
  by (simp_all add: small_defs registry_eval)

lemma cache1_by_addData:
  "addData 20 64 0 cache0 (Some ''t1'') 2 [1, 2] (Some 7) = Some (Inr (CACHE_NO_ERR, cache1))"
  by (simp add: small_defs addData_def hasData_def addData_link_def lock_def unlock_def)

lemma cache2_by_addData:
  "addData 20 64 1 cache1 (Some ''t2'') 1 [5] None = Some (Inr (CACHE_NO_ERR, cache2))"
  by (simp add: small_defs addData_def hasData_def addData_link_def lock_def unlock_def
      hasData_loop.simps fun_eq_iff)

lemma cache3_by_addData:
  "addData 20 64 2 cache2 (Some ''t3'') 0 [] None = Some (Inr (CACHE_NO_ERR, cache3))"
  by (simp add: small_defs addData_def hasData_def addData_link_def lock_def unlock_def
      hasData_loop.simps fun_eq_iff)

subsection \<open>The operations keep the cache well-formed\<close>

lemma first_named:
  "n \<in> set (map f as) \<Longrightarrow> \<exists>pre t post. as = pre @ t # post \<and> f t = n \<and> n \<notin> set (map f pre)"
proof (induction as)
  case Nil
  then show ?case by simp
next
  case (Cons a as)
  show ?case
  proof (cases "f a = n")
    case True
    then have "a # as = [] @ a # as \<and> f a = n \<and> n \<notin> set (map f [])" by simp
    then show ?thesis by blast
  next
    case False
    with Cons.prems have "n \<in> set (map f as)" by auto
    from Cons.IH [OF this] obtain pre t post where
      "as = pre @ t # post" "f t = n" "n \<notin> set (map f pre)" by blast
    with False have "a # as = (a # pre) @ t # post \<and> f t = n \<and> n \<notin> set (map f (a # pre))"
      by auto
    then show ?thesis by blast
  qed
qed

lemma hasData_invalid:
  "name = None \<or> (\<exists>n. name = Some n \<and> NM < length n) \<Longrightarrow>
   hasData NM c name = Some (Inl AssertFailed)"
  by (auto simp: hasData_def)

lemma registry_name_valid:
  "registry NM LM c as \<Longrightarrow> n \<in> set (map (name_at (heap c)) as) \<Longrightarrow> length n \<le> NM"
  by (auto simp: name_at_def dest!: registry_block)

lemma addData_rejected:
  assumes reg: "registry NM LM c as" and nm: "length n \<le> NM" and fresh: "heap c p = None"
    and rej: "n \<in> set (map (name_at (heap c)) as) \<or> LM < unat len"
  shows "addData NM LM p c (Some n) len val lsn =
    Some (Inr (if n \<in> set (map (name_at (heap c)) as) then CACHE_NAME_ERROR
               else CACHE_LENGTH_ERROR,
               c\<lparr>pool := unlock (lock (pool c))\<rparr>))"
proof -
  let ?c1 = "c\<lparr>pool := lock (pool c)\<rparr>"
  have reg1: "registry NM LM ?c1 as" using reg by (simp only: registry_pool)
  have has: "hasData NM ?c1 (Some n) = Some (Inr (lookup (heap c) as n))"
    using hasData_registry [OF reg1 nm] by simp
  have idem: "(heap c)(p := None) = heap c" using fresh by (simp add: fun_upd_idem)
  show ?thesis
  proof (cases "n \<in> set (map (name_at (heap c)) as)")
    case True
    then have "lookup (heap c) as n \<noteq> None" by (simp only: lookup_None) simp
    with True has idem show ?thesis by (auto simp: addData_def Let_def)
  next
    case False
    then have "lookup (heap c) as n = None" by (simp only: lookup_None) simp
    with False rej has idem show ?thesis by (auto simp: addData_def Let_def)
  qed
qed

lemma addData_preserves_registry:
  assumes reg: "registry NM LM c as" and fresh: "heap c p = None"
    and run: "addData NM LM p c name len val lsn = Some (Inr (e, c'))"
  shows "\<exists>as'. registry NM LM c' as'"
proof -
  have valid: "\<not> (name = None \<or> (\<exists>n. name = Some n \<and> NM < length n))"
  proof
    assume "name = None \<or> (\<exists>n. name = Some n \<and> NM < length n)"
    then have "hasData NM (c\<lparr>pool := lock (pool c)\<rparr>) name = Some (Inl AssertFailed)"
      by (rule hasData_invalid)
    with run show False by (simp add: addData_def)
  qed
  then obtain n where n: "name = Some n" and nm: "length n \<le> NM"
    by (cases name) auto
  show ?thesis
  proof (cases "n \<in> set (map (name_at (heap c)) as) \<or> LM < unat len")
    case True
    from addData_rejected [OF reg nm fresh True] run n
    have "c' = c\<lparr>pool := unlock (lock (pool c))\<rparr>" by simp
    with reg show ?thesis by (auto simp: registry_pool)
  next
    case False
    then have new: "n \<notin> set (map (name_at (heap c)) as)" and len: "unat len \<le> LM"
      by auto
    have buf: "unat len \<le> length val"
    proof (rule ccontr)
      assume "\<not> unat len \<le> length val"
      then have short: "length val < unat len" by simp
      have "hasData NM (c\<lparr>pool := lock (pool c)\<rparr>) (Some n) = Some (Inr None)"
        using hasData_registry [of NM LM "c\<lparr>pool := lock (pool c)\<rparr>" as n] reg nm new
        by (simp add: registry_pool lookup_None)
      with short len run n show False by (simp add: addData_def Let_def)
    qed
    from addData_success [OF reg nm new len buf fresh, of lsn] run n
    have "registry NM LM c' (as @ [p])" by auto
    then show ?thesis by blast
  qed
qed

lemma delData_invalid:
  "name = None \<or> (\<exists>n. name = Some n \<and> NM < length n) \<Longrightarrow>
   delData NM c name = Some (Inl AssertFailed)"
  by (auto simp: delData_def Let_def)

lemma delData_preserves_registry:
  assumes reg: "registry NM LM c as"
    and run: "delData NM c name = Some (Inr (e, c'))"
  shows "\<exists>as'. registry NM LM c' as'"
proof -
  have valid: "\<not> (name = None \<or> (\<exists>n. name = Some n \<and> NM < length n))"
  proof
    assume "name = None \<or> (\<exists>n. name = Some n \<and> NM < length n)"
    then have "delData NM c name = Some (Inl AssertFailed)" by (rule delData_invalid)
    with run show False by simp
  qed
  then obtain n where n: "name = Some n" and nm: "length n \<le> NM"
    by (cases name) auto
  show ?thesis
  proof (cases "n \<in> set (map (name_at (heap c)) as)")
    case False
    have "c' = c\<lparr>pool := unlock (lock (pool c))\<rparr>"
    proof (cases "as = []")
      case True
      with reg have "registry NM LM c []" by simp
      from delData_empty [OF this nm] run n show ?thesis by simp
    next
      case nonempty: False
      from delData_absent [OF reg nonempty nm False] run n show ?thesis by simp
    qed
    with reg show ?thesis by (auto simp: registry_pool)
  next
    case True
    from first_named [OF True] obtain pre t post where
      as: "as = pre @ t # post" and t: "name_at (heap c) t = n"
      and pre: "n \<notin> set (map (name_at (heap c)) pre)"
      by blast
    consider (head) "pre = []" | (second) a where "pre = [a]"
      | (later) front data where "pre = front @ [data]" "front \<noteq> []"
    proof (cases pre rule: rev_cases)
      case Nil
      then show ?thesis by (rule head)
    next
      case (snoc front data)
      then show ?thesis by (cases "front = []") (auto intro: second later)
    qed
    then show ?thesis
    proof cases
      case head
      with reg as have r: "registry NM LM c (t # post)" by simp
      from delData_removes_head [OF r nm] t run n
      have "registry NM LM c' post" by auto
      then show ?thesis by blast
    next
      case second
      with reg as have r: "registry NM LM c (a # t # post)" by simp
      have "name_at (heap c) a = n \<or> (t # post \<noteq> [] \<and> name_at (heap c) (hd (t # post)) = n)"
        using t by simp
      from delData_removes_head [OF r nm this] run n
      have "registry NM LM c' (t # post)" by auto
      then show ?thesis by blast
    next
      case later
      with reg as have r: "registry NM LM c (front @ data # t # post)" by simp
      from pre later have ab: "n \<notin> set (map (name_at (heap c)) (front @ [data]))" by simp
      show ?thesis
      proof (cases "post = []")
        case True
        with r have "registry NM LM c (front @ [data, t])" by simp
        from delData_tail_faults [OF this later(2) nm ab t] run n show ?thesis by simp
      next
        case False
        from delData_removes_inner [OF r later(2) False nm ab t] run n
        have "registry NM LM c' (front @ data # post)" by auto
        then show ?thesis by blast
      qed
    qed
  qed
qed

lemma setValue_found:
  assumes "hasData NM c name = Some (Inr (Some a))" and "heap c a = Some d"
    and "setValue_loop (data_value d) (data_length d) 0 val False = Inr (dv, ch)"
  shows "setValue NM c name val =
    Some (Inr (CACHE_NO_ERR,
      (if ch then
         (case valueChangedListener d of
            None \<Rightarrow> c\<lparr>heap := (heap c)(a \<mapsto> d\<lparr>data_value := dv\<rparr>)\<rparr>
          | Some f \<Rightarrow> c\<lparr>heap := (heap c)(a \<mapsto> d\<lparr>data_value := dv\<rparr>),
                       pool := addTask (pool c) f a\<rparr>)
       else c\<lparr>heap := (heap c)(a \<mapsto> d\<lparr>data_value := dv\<rparr>)\<rparr>)))"
  using assms by (simp add: setValue_def Let_def split: option.splits)

lemma setValue_loop_faults:
  assumes "hasData NM c name = Some (Inr (Some a))" and "heap c a = Some d"
    and "setValue_loop (data_value d) (data_length d) 0 val False = Inl f"
  shows "setValue NM c name val = Some (Inl f)"
  using assms by (simp add: setValue_def)

lemma setValue_preserves_registry:
  assumes reg: "registry NM LM c as"
    and run: "setValue NM c name val = Some (Inr (e, c'))"
  shows "registry NM LM c' as"
proof -
  have valid: "\<not> (name = None \<or> (\<exists>n. name = Some n \<and> NM < length n))"
  proof
    assume "name = None \<or> (\<exists>n. name = Some n \<and> NM < length n)"
    then have "hasData NM c name = Some (Inl AssertFailed)" by (rule hasData_invalid)
    with run show False by (simp add: setValue_def)
  qed
  then obtain n where n: "name = Some n" and nm: "length n \<le> NM"
    by (cases name) auto
  have has: "hasData NM c name = Some (Inr (lookup (heap c) as n))"
    unfolding n by (rule hasData_registry [OF reg nm])
  show ?thesis
  proof (cases "lookup (heap c) as n")
    case None
    with has run have "c' = c" by (simp add: setValue_def)
    with reg show ?thesis by simp
  next
    case (Some a)
    from lookup_Some [OF Some] have a: "a \<in> set as" by simp
    from registry_block [OF reg a] obtain d where d: "heap c a = Some d" by auto
    have has': "hasData NM c name = Some (Inr (Some a))" using has Some by simp
    show ?thesis
    proof (cases "setValue_loop (data_value d) (data_length d) 0 val False")
      case (Inl f)
      from setValue_loop_faults [OF has' d Inl] run show ?thesis by simp
    next
      case (Inr r)
      obtain dv ch where r: "r = (dv, ch)" by (cases r)
      have loop: "setValue_loop (data_value d) (data_length d) 0 val False = Inr (dv, ch)"
        using Inr r by simp
      from setValue_loop_length [OF loop]
      have "length dv = length (data_value d)" .
      from registry_set_value [OF reg d this]
      have reg': "registry NM LM (c\<lparr>heap := (heap c)(a \<mapsto> d\<lparr>data_value := dv\<rparr>)\<rparr>) as" .
      then have reg'': "\<And>p. registry NM LM
          (c\<lparr>heap := (heap c)(a \<mapsto> d\<lparr>data_value := dv\<rparr>), pool := p\<rparr>) as"
        by (simp add: registry_def)
      from setValue_found [OF has' d loop] run
      have "c' = (if ch then
         (case valueChangedListener d of
            None \<Rightarrow> c\<lparr>heap := (heap c)(a \<mapsto> d\<lparr>data_value := dv\<rparr>)\<rparr>
          | Some f \<Rightarrow> c\<lparr>heap := (heap c)(a \<mapsto> d\<lparr>data_value := dv\<rparr>),
                       pool := addTask (pool c) f a\<rparr>)
       else c\<lparr>heap := (heap c)(a \<mapsto> d\<lparr>data_value := dv\<rparr>)\<rparr>)"
        by simp
      with reg' reg'' show ?thesis
        by (simp split: option.splits)
    qed
  qed
qed

lemma initCache_registry:
  assumes "initCache NM c0 name maxThreads stackSize = (e, c)"
  shows "registry NM LM c []"
proof -
  have "registry NM LM (snd (initCache NM c0 name maxThreads stackSize)) []"
    by (simp add: initCache_def registry_def split: option.splits)
  with assms show ?thesis by simp
qed

subsection \<open>The large cache\<close>

lemma digits_inj:
  "a < 128 ^ k \<Longrightarrow> b < 128 ^ k \<Longrightarrow> digits k a = digits k b \<Longrightarrow> a = b"
proof (induction k arbitrary: a b)
  case 0
  then show ?case by simp
next
  case (Suc k)
  from Suc.prems have m: "a mod 128 = b mod 128"
    and r: "digits k (a div 128) = digits k (b div 128)"
    by simp_all
  from Suc.prems have "a div 128 < 128 ^ k" "b div 128 < 128 ^ k"
    by (simp_all add: less_mult_imp_div_less mult.commute)
  from Suc.IH [OF this r] have "a div 128 = b div 128" .
  with m show ?case by (metis div_mult_mod_eq)
qed

lemma digits_small: "d \<in> set (digits k a) \<Longrightarrow> d < 128"
  by (induction k arbitrary: a) auto

lemma length_digits: "length (digits k a) = k"
  by (induction k arbitrary: a) auto

lemma char_of_Suc_inj:
  "d < 128 \<Longrightarrow> d' < 128 \<Longrightarrow> char_of (Suc d) = (char_of (Suc d') :: char) \<Longrightarrow> d = d'"
proof -
  assume a: "d < 128" "d' < 128" and e: "char_of (Suc d) = (char_of (Suc d') :: char)"
  from e have "(of_char (char_of (Suc d) :: char) :: nat) = of_char (char_of (Suc d') :: char)"
    by simp
  then have "Suc d mod 256 = Suc d' mod 256" by (simp only: of_char_of)
  with a show ?thesis by simp
qed

lemma many_name_inj:
  assumes "a < many" "b < many" "many_name a = many_name b"
  shows "a = b"
proof -
  have "inj_on (\<lambda>d. char_of (Suc d) :: char) (set (digits 4 a) \<union> set (digits 4 b))"
    by (rule inj_onI) (auto dest!: digits_small intro: char_of_Suc_inj)
  with assms(3) have "digits 4 a = digits 4 b"
    unfolding many_name_def by (rule inj_on_map_eq_map [THEN iffD1, rotated])
  moreover have "a < 128 ^ 4" "b < 128 ^ 4" using assms(1,2) by (simp_all add: many_def)
  ultimately show ?thesis by (rule digits_inj [rotated 2])
qed

lemma filled_path:
  "i \<le> k \<Longrightarrow> path (filled_heap k) (if i < k then Some i else None) [i..<k] None"
proof (induction rule: inc_induct)
  case base
  then show ?case by simp
next
  case (step n)
  from step.hyps have "[n..<k] = n # [Suc n..<k]" by (simp add: upt_conv_Cons)
  with step show ?case by (simp add: filled_heap_def filled_block_def)
qed

lemma filled_names: "a < k \<Longrightarrow> name_at (filled_heap k) a = many_name a"
  by (simp add: name_at_def filled_heap_def filled_block_def)

lemma filled_lengths: "a < k \<Longrightarrow> length_at (filled_heap k) a = 64"
  by (simp add: length_at_def filled_heap_def filled_block_def)

lemma filled_blocks_ok: "a < k \<Longrightarrow> block_ok 20 64 (filled_heap k) a"
  by (simp add: block_ok_def filled_heap_def filled_block_def many_name_def length_digits)

lemma filled_registry:
  assumes "k \<le> many"
  shows "registry 20 64 (filled_cache k) [0..<k]"
proof -
  have "path (filled_heap k) (if 0 < k then Some 0 else None) [0..<k] None"
    by (rule filled_path) simp
  then have "path (filled_heap k) (if k = 0 then None else Some 0) [0..<k] None"
    by (cases "k = 0") simp_all
  moreover have "(if k = 0 then None else Some (k - 1)) =
      (if [0..<k] = [] then None else Some (last [0..<k]))"
    by (cases "k = 0") (simp_all add: last_upt)
  moreover have "inj_on (name_at (filled_heap k)) (set [0..<k])"
  proof (rule inj_onI)
    fix x y
    assume "x \<in> set [0..<k]" "y \<in> set [0..<k]"
      and e: "name_at (filled_heap k) x = name_at (filled_heap k) y"
    then have x: "x < k" and y: "y < k" by simp_all
    with e have "many_name x = many_name y" by (simp add: filled_names)
    moreover from x y assms have "x < many" "y < many" by simp_all
    ultimately show "x = y" by (rule many_name_inj [rotated 2])
  qed
  then have "distinct (map (name_at (filled_heap k)) [0..<k])"
    by (simp add: distinct_map)
  moreover have "list_all (block_ok 20 64 (filled_heap k)) [0..<k]"
    by (simp add: list_all_iff filled_blocks_ok)
  ultimately show ?thesis
    by (simp add: registry_def filled_cache_def)
qed

lemma filled_total: "sum_list (map (length_at (filled_heap k)) [0..<k]) = 64 * k"
proof -
  have "map (length_at (filled_heap k)) [0..<k] = map (\<lambda>a. 64) [0..<k]"
    by (rule map_cong [OF refl]) (simp add: filled_lengths)
  then have "sum_list (map (length_at (filled_heap k)) [0..<k]) =
      sum_list (map (\<lambda>a. 64) [0..<k])"
    by (simp only:)
  also have "\<dots> = 64 * k" by (simp add: sum_list_triv)
  finally show ?thesis .
qed

lemma many_getSize: "getSize many_cache = Some (Inr (CACHE_NO_ERR, 33554432, 0))"
proof -
  have p: "path (heap many_cache) (dataHead many_cache) [0..<many] None"
    using filled_registry [of many] by (simp add: registry_def many_cache_def)
  have h: "heap many_cache = filled_heap many" by (simp add: many_cache_def filled_cache_def)
  have "(word_of_nat (2 * (64 * many)) :: 32 word) = 0"
    by (simp add: many_def)
  moreover have "(word_of_nat many :: 32 word) = 33554432"
    by (simp add: many_def)
  ultimately show ?thesis
    by (simp add: getSize_path [OF p] h filled_total)
qed

lemma filled_heap_first: "(filled_heap 0)(0 \<mapsto> filled_block (Suc 0) 0) = filled_heap (Suc 0)"
  by (rule ext) (simp add: filled_heap_def)

lemma filled_heap_step:
  "0 < k \<Longrightarrow>
   ((filled_heap k)(k \<mapsto> filled_block (Suc k) k))
     (k - 1 \<mapsto> (filled_block k (k - 1))\<lparr>data_next := Some k\<rparr>) = filled_heap (Suc k)"
  by (rule ext) (auto simp: filled_heap_def filled_block_def)

lemma filled_new_block:
  "\<lparr>data_name = many_name k, data_length = 64, data_value = replicate 64 0,
    valueChangedListener = None, data_next = None\<rparr> = filled_block (Suc k) k"
  by (simp add: filled_block_def)

lemma filled_heap_0: "filled_heap 0 = (\<lambda>a. None)"
  by (rule ext) (simp add: filled_heap_def)

lemma filled_pool: "unlock (lock (pool (filled_cache k))) = pool cache0"
  by (simp add: filled_cache_def small_defs lock_def unlock_def)

text \<open>Adding the next entry to a filled cache gives the next filled cache.\<close>

lemma filled_addData:
  assumes k: "k < many"
  shows "addData 20 64 k (filled_cache k) (Some (many_name k)) 64 (replicate 64 0) None =
    Some (Inr (CACHE_NO_ERR, filled_cache (Suc k)))"
proof -
  let ?c = "filled_cache k"
  let ?c1 = "?c\<lparr>pool := lock (pool ?c)\<rparr>"
  let ?c2 = "?c1\<lparr>heap := (heap ?c1)(k \<mapsto> filled_block (Suc k) k)\<rparr>"
  from k have "k \<le> many" by simp
  then have reg: "registry 20 64 ?c1 [0..<k]"
    by (simp only: registry_pool filled_registry)
  have nm: "length (many_name k) \<le> 20" by (simp add: many_name_def length_digits)
  have new: "many_name k \<notin> set (map (name_at (heap ?c1)) [0..<k])"
  proof
    assume "many_name k \<in> set (map (name_at (heap ?c1)) [0..<k])"
    then obtain a where a: "a < k" and "name_at (filled_heap k) a = many_name k"
      by (auto simp: filled_cache_def)
    then have "many_name a = many_name k" by (simp add: filled_names)
    moreover from a k have "a < many" by simp
    ultimately have "a = k" using k by (rule many_name_inj [rotated 2])
    with a show False by simp
  qed
  have has: "hasData 20 ?c1 (Some (many_name k)) = Some (Inr None)"
    using hasData_registry [OF reg nm] new by (simp add: lookup_None)
  have run: "addData 20 64 k ?c (Some (many_name k)) 64 (replicate 64 0) None =
      (case addData_link ?c2 k of
         Inl f \<Rightarrow> Some (Inl f)
       | Inr c3 \<Rightarrow> Some (Inr (CACHE_NO_ERR, c3\<lparr>pool := unlock (pool c3)\<rparr>)))"
    using has by (simp add: addData_def Let_def filled_new_block)
  show ?thesis
  proof (cases "k = 0")
    case True
    have hd: "dataHead ?c2 = None" using True by (simp add: filled_cache_def)
    have "?c2\<lparr>dataHead := Some k, dataTail := Some k, pool := unlock (pool ?c2)\<rparr> =
        filled_cache (Suc k)"
      using True filled_heap_first by (simp add: filled_cache_def filled_pool [of 0, unfolded filled_cache_def, simplified])
    then show ?thesis
      unfolding run addData_link_empty [OF hd] by simp
  next
    case False
    then have pos: "0 < k" by simp
    have hd: "dataHead ?c2 = Some 0" and tl: "dataTail ?c2 = Some (k - 1)"
      using False by (simp_all add: filled_cache_def)
    have hl: "heap ?c2 (k - 1) = Some (filled_block k (k - 1))"
      using pos by (simp add: filled_cache_def filled_heap_def)
    have h0: "heap ?c2 0 \<noteq> None"
      using pos by (simp add: filled_cache_def filled_heap_def)
    have "heap ?c2 = (filled_heap k)(k \<mapsto> filled_block (Suc k) k)"
      by (simp add: filled_cache_def)
    then have hs: "(heap ?c2)(k - 1 \<mapsto> (filled_block k (k - 1))\<lparr>data_next := Some k\<rparr>) =
        filled_heap (Suc k)"
      using filled_heap_step [OF pos] by simp
    have "?c2\<lparr>heap := (heap ?c2)(k - 1 \<mapsto> (filled_block k (k - 1))\<lparr>data_next := Some k\<rparr>),
              dataTail := Some k, pool := unlock (lock (pool ?c))\<rparr> = filled_cache (Suc k)"
      unfolding hs filled_pool using pos by (simp add: filled_cache_def)
    then show ?thesis
      unfolding run addData_link_nonempty [OF hd tl hl h0] by simp
  qed
qed

lemma filled_reachable: "k \<le> many \<Longrightarrow> reachable 20 64 (filled_cache k)"
proof (induction k)
  case 0
  have "initCache 20 blank (Some ''edm'') 4 512 = (CACHE_NO_ERR, filled_cache 0)"
    by (simp add: filled_cache_def filled_heap_0 small_defs)
  then show ?case by (rule by_initCache)
next
  case (Suc k)
  then have r: "reachable 20 64 (filled_cache k)" and k: "k < many" by simp_all
  have "heap (filled_cache k) k = None" by (simp add: filled_cache_def filled_heap_def)
  with r show ?case using filled_addData [OF k] by (rule by_addData)
qed

section \<open>The claims\<close>

text \<open>
  C1. The cache with the entries \<open>t1\<close> and \<open>t2\<close>: \<open>delData\<close> for \<open>t2\<close> returns
  \<open>CACHE_NO_ERR\<close>, but the block it has unlinked and freed is the one of \<open>t1\<close>;
  afterwards \<open>hasData\<close> still finds \<open>t2\<close> and no longer finds \<open>t1\<close>. The cache with
  the entries \<open>t1\<close>, \<open>t2\<close> and \<open>t3\<close>: \<open>delData\<close> for the last entry \<open>t3\<close> stops in
  a dereference of \<open>NULL\<close>.
\<close>

theorem delData_removes_wrong_entry:
  "delData 20 cache2 (Some ''t2'') =
     Some (Inr (CACHE_NO_ERR, cache2\<lparr>dataHead := Some 1, heap := (heap cache2)(0 := None)\<rparr>)) \<and>
   hasData 20 (cache2\<lparr>dataHead := Some 1, heap := (heap cache2)(0 := None)\<rparr>) (Some ''t2'') =
     Some (Inr (Some 1)) \<and>
   hasData 20 (cache2\<lparr>dataHead := Some 1, heap := (heap cache2)(0 := None)\<rparr>) (Some ''t1'') =
     Some (Inr None) \<and>
   delData 20 cache3 (Some ''t3'') = Some (Inl NullDeref)"
proof -
  have "delData 20 cache2 (Some ''t2'') =
     Some (Inr (CACHE_NO_ERR, cache2\<lparr>dataHead := Some 1, heap := (heap cache2)(0 := None)\<rparr>))"
    by (simp add: small_defs delData_def delData_loop.simps delData_unlink_def delData_free_def
        lock_def unlock_def)
  moreover have
    "hasData 20 (cache2\<lparr>dataHead := Some 1, heap := (heap cache2)(0 := None)\<rparr>) (Some ''t2'') =
       Some (Inr (Some 1))"
    by (simp add: small_defs hasData_def hasData_loop.simps)
  moreover have
    "hasData 20 (cache2\<lparr>dataHead := Some 1, heap := (heap cache2)(0 := None)\<rparr>) (Some ''t1'') =
       Some (Inr None)"
    by (simp add: small_defs hasData_def hasData_loop.simps)
  moreover have "delData 20 cache3 (Some ''t3'') = Some (Inl NullDeref)"
    by (simp add: small_defs delData_def delData_loop.simps delData_unlink_def delData_free_def
        lock_def unlock_def)
  ultimately show ?thesis by simp
qed

text \<open>
  C2. In a well-formed cache that has no entry named \<open>n\<close>, \<open>addData\<close> for \<open>n\<close> with
  a length within \<open>CACHE_LENGTH_MAX\<close> and a buffer \<open>val\<close> of that many units returns
  \<open>CACHE_NO_ERR\<close>, and \<open>getValue\<close> for \<open>n\<close> on the resulting cache returns
  \<open>CACHE_NO_ERR\<close> and has written the units of \<open>val\<close>, in order, to the front of the
  caller's buffer \<open>out\<close>, leaving the rest of \<open>out\<close> as it was.
\<close>

theorem addData_then_getValue:
  assumes "registry NM LM c as" and "length n \<le> NM"
    and "n \<notin> set (map (name_at (heap c)) as)"
    and "unat len \<le> LM" and "length val = unat len" and "heap c p = None"
    and "unat len \<le> length out"
  shows "\<exists>c'. addData NM LM p c (Some n) len val lsn = Some (Inr (CACHE_NO_ERR, c')) \<and>
    getValue NM c' (Some n) out = Some (Inr (CACHE_NO_ERR, val @ drop (unat len) out))"
proof -
  from assms(5) have buf: "unat len \<le> length val" by simp
  from addData_success [OF assms(1-4) buf assms(6), of lsn] obtain c' where
    run: "addData NM LM p c (Some n) len val lsn = Some (Inr (CACHE_NO_ERR, c'))"
    and reg: "registry NM LM c' (as @ [p])"
    and ent: "entry (heap c') p = Some (n, len, take (unat len) val, lsn)"
    by auto
  from ent obtain d where d: "heap c' p = Some d" "data_name d = n" "data_length d = len"
    "data_value d = val"
    using assms(5) by (auto simp: entry_def split: option.splits)
  have "getValue NM c' (Some (data_name d)) out =
      Some (Inr (CACHE_NO_ERR, data_value d @ drop (unat (data_length d)) out))"
    by (rule getValue_present [OF reg _ d(1)]) (simp_all add: d assms(7))
  with run d show ?thesis by simp
qed

theorem addData_then_getValue_witness:
  "registry 20 64 cache1 [0] \<and> length ''t2'' \<le> (20 :: nat) \<and>
   ''t2'' \<notin> set (map (name_at (heap cache1)) [0]) \<and> unat (2 :: 8 word) \<le> (64 :: nat) \<and>
   length [3, 4 :: 16 word] = unat (2 :: 8 word) \<and> heap cache1 1 = None \<and>
   unat (2 :: 8 word) \<le> length [0, 0, 9 :: 16 word] \<and>
   (\<exists>c'. addData 20 64 1 cache1 (Some ''t2'') 2 [3, 4] None = Some (Inr (CACHE_NO_ERR, c')) \<and>
     getValue 20 c' (Some ''t2'') [0, 0, 9] = Some (Inr (CACHE_NO_ERR, [3, 4, 9])))"
proof -
  have r: "registry 20 64 cache1 [0]" by (rule small_registries)
  have v: "length ''t2'' \<le> (20 :: nat)" by simp
  have n: "''t2'' \<notin> set (map (name_at (heap cache1)) [0])"
    by (simp add: small_defs name_at_def)
  have l: "unat (2 :: 8 word) \<le> (64 :: nat)" by simp
  have b: "length [3, 4 :: 16 word] = unat (2 :: 8 word)" by simp
  have f: "heap cache1 1 = None" by (simp add: small_defs)
  have ob: "unat (2 :: 8 word) \<le> length [0, 0, 9 :: 16 word]" by simp
  from addData_then_getValue [OF r v n l b f ob, of None] r n f show ?thesis by simp
qed

text \<open>
  C3. In a well-formed cache, \<open>setValue\<close> for the name of the entry at \<open>a\<close>, with a
  buffer \<open>val\<close> of at least as many units as the entry has, returns \<open>CACHE_NO_ERR\<close>
  and stores the units. It appends one task to the queue of the pool, the listener of the
  entry with the address \<open>a\<close> as its argument, when one of the units written differs
  from the old one and the entry has a listener; otherwise it leaves the queue as it was.
\<close>

theorem setValue_submits_listener:
  assumes "registry NM LM c as" and "a \<in> set as" and "heap c a = Some d"
    and "unat (data_length d) \<le> length val"
  shows "\<exists>c'. setValue NM c (Some (data_name d)) val = Some (Inr (CACHE_NO_ERR, c')) \<and>
    entry (heap c') a =
      Some (data_name d, data_length d, take (unat (data_length d)) val,
            valueChangedListener d) \<and>
    tasks (pool c') =
      tasks (pool c) @
      (if \<exists>i<unat (data_length d). val ! i \<noteq> data_value d ! i
       then (case valueChangedListener d of None \<Rightarrow> [] | Some f \<Rightarrow> [(f, a)])
       else []) \<and>
    (tasks (pool c') \<noteq> tasks (pool c)) =
      ((\<exists>i<unat (data_length d). val ! i \<noteq> data_value d ! i) \<and>
       valueChangedListener d \<noteq> None)"
proof -
  let ?k = "unat (data_length d)"
  from registry_block [OF assms(1,2)] assms(3) have nm: "length (data_name d) \<le> NM"
    and len: "length (data_value d) = ?k"
    by auto
  from assms(1) have "distinct (map (name_at (heap c)) as)" by (simp add: registry_def)
  from lookup_present [OF this assms(2)] assms(3)
  have "lookup (heap c) as (data_name d) = Some a"
    by (simp add: name_at_def)
  then have has: "hasData NM c (Some (data_name d)) = Some (Inr (Some a))"
    by (simp add: hasData_registry [OF assms(1) nm])
  have ch: "(take ?k val \<noteq> data_value d) = (\<exists>i<?k. val ! i \<noteq> data_value d ! i)"
    by (rule take_differs [OF len assms(4)])
  have loop: "setValue_loop (data_value d) (data_length d) 0 val False =
      Inr (take ?k val, \<exists>i<?k. val ! i \<noteq> data_value d ! i)"
    using setValue_loop_copy [OF len assms(4), of 0 False] ch by auto
  show ?thesis
  proof (cases "valueChangedListener d")
    case None
    with has assms(3) loop show ?thesis
      by (auto simp: setValue_def entry_def Let_def)
  next
    case (Some f)
    with has assms(3) loop show ?thesis
      by (auto simp: setValue_def entry_def addTask_def Let_def)
  qed
qed

theorem setValue_submits_listener_witness:
  "registry 20 64 cache2 [0, 1] \<and> (0 :: nat) \<in> set [0, 1] \<and>
   heap cache2 0 = Some (block1\<lparr>data_next := Some 1\<rparr>) \<and>
   (\<exists>c'. setValue 20 cache2 (Some ''t1'') [1, 2] = Some (Inr (CACHE_NO_ERR, c')) \<and>
     tasks (pool c') = tasks (pool cache2)) \<and>
   (\<exists>c'. setValue 20 cache2 (Some ''t1'') [3, 4] = Some (Inr (CACHE_NO_ERR, c')) \<and>
     entry (heap c') 0 = Some (''t1'', 2, [3, 4], Some 7) \<and>
     tasks (pool c') = tasks (pool cache2) @ [(7, 0)])"
proof -
  have r: "registry 20 64 cache2 [0, 1]" by (rule small_registries)
  have a: "(0 :: nat) \<in> set [0, 1]" by simp
  have d: "heap cache2 0 = Some (block1\<lparr>data_next := Some 1\<rparr>)" by (simp add: small_defs)
  have b: "unat (data_length (block1\<lparr>data_next := Some 1\<rparr>)) \<le> length [1, 2 :: 16 word]"
    "unat (data_length (block1\<lparr>data_next := Some 1\<rparr>)) \<le> length [3, 4 :: 16 word]"
    by (simp_all add: block1_def)
  have two: "\<And>P. (\<exists>i<2::nat. P i) = (P 0 \<or> P 1)"
    by (auto simp: less_Suc_eq numeral_2_eq_2)
  from setValue_submits_listener [OF r a d b(1)] setValue_submits_listener [OF r a d b(2)]
    r d show ?thesis
    by (auto simp: block1_def two)
qed

text \<open>
  C4, as amended. On a well-formed cache with the entries \<open>as\<close>, \<open>getSize\<close> returns
  with the number of entries in \<open>*length\<close> and twice the sum of their element counts in
  \<open>*size\<close>, both modulo \<open>2 ^ 32\<close> since the out-parameters have 32 bits; it returns
  \<open>CACHE_NOT_INIT\<close> when the value in \<open>*length\<close> is zero, as it is with both values
  zero for a cache without entries, and \<open>CACHE_NO_ERR\<close> otherwise. When the number of
  entries and the number of bytes are below \<open>2 ^ 32\<close> the values are the exact ones.
\<close>

theorem getSize_counts:
  assumes "registry NM LM c as"
  shows "\<exists>len sz.
    getSize c = Some (Inr (if unat len = 0 then CACHE_NOT_INIT else CACHE_NO_ERR, len, sz)) \<and>
    unat len = length as mod 2 ^ 32 \<and>
    unat sz = (2 * sum_list (map (length_at (heap c)) as)) mod 2 ^ 32 \<and>
    (as = [] \<longrightarrow> unat len = 0 \<and> unat sz = 0) \<and>
    (length as < 2 ^ 32 \<longrightarrow> unat len = length as \<and> (unat len = 0) = (as = [])) \<and>
    (2 * sum_list (map (length_at (heap c)) as) < 2 ^ 32 \<longrightarrow>
       unat sz = 2 * sum_list (map (length_at (heap c)) as))"
proof -
  let ?len = "word_of_nat (length as) :: 32 word"
  let ?sz = "word_of_nat (2 * sum_list (map (length_at (heap c)) as)) :: 32 word"
  from assms have p: "path (heap c) (dataHead c) as None" by (simp add: registry_def)
  have z: "(?len = 0) = (unat ?len = 0)" by (simp only: unat_eq_0)
  have l: "unat ?len = length as mod 2 ^ 32" by (simp add: unat_of_nat)
  have s: "unat ?sz = (2 * sum_list (map (length_at (heap c)) as)) mod 2 ^ 32"
    by (simp only: unat_of_nat) simp
  have g: "getSize c =
      Some (Inr (if unat ?len = 0 then CACHE_NOT_INIT else CACHE_NO_ERR, ?len, ?sz))"
    by (simp only: getSize_path [OF p] z)
  show ?thesis
  proof (rule exI [of _ ?len], rule exI [of _ ?sz], intro conjI)
    show "getSize c =
        Some (Inr (if unat ?len = 0 then CACHE_NOT_INIT else CACHE_NO_ERR, ?len, ?sz))"
      by (fact g)
    show "unat ?len = length as mod 2 ^ 32" by (fact l)
    show "unat ?sz = (2 * sum_list (map (length_at (heap c)) as)) mod 2 ^ 32" by (fact s)
    show "as = [] \<longrightarrow> unat ?len = 0 \<and> unat ?sz = 0" by simp
    show "length as < 2 ^ 32 \<longrightarrow> unat ?len = length as \<and> (unat ?len = 0) = (as = [])"
      using l by simp
    show "2 * sum_list (map (length_at (heap c)) as) < 2 ^ 32 \<longrightarrow>
        unat ?sz = 2 * sum_list (map (length_at (heap c)) as)"
      using s by simp
  qed
qed

theorem getSize_counts_witness:
  "registry 20 64 cache3 [0, 1, 2] \<and> registry 20 64 cache0 [] \<and>
   getSize cache3 = Some (Inr (CACHE_NO_ERR, 3, 6)) \<and>
   getSize cache0 = Some (Inr (CACHE_NOT_INIT, 0, 0))"
proof -
  have r3: "registry 20 64 cache3 [0, 1, 2]" and r0: "registry 20 64 cache0 []"
    by (rule small_registries)+
  have t: "sum_list (map (length_at (heap cache3)) [0, 1, 2]) = 3"
    by (simp add: small_defs length_at_def)
  from getSize_counts [OF r3] obtain len sz where
    g: "getSize cache3 = Some (Inr (if unat len = 0 then CACHE_NOT_INIT else CACHE_NO_ERR, len, sz))"
    and l: "unat len = length [0 :: nat, 1, 2] mod 2 ^ 32"
    and s: "unat sz = (2 * sum_list (map (length_at (heap cache3)) [0, 1, 2])) mod 2 ^ 32"
    by blast
  from l have "unat len = unat (3 :: 32 word)" by simp
  then have len: "len = 3" by (simp only: word_unat_eq_iff)
  from s t have "unat sz = unat (6 :: 32 word)" by simp
  then have sz: "sz = 6" by (simp only: word_unat_eq_iff)
  from getSize_counts [OF r0] obtain len0 sz0 where
    g0: "getSize cache0 = Some (Inr (if unat len0 = 0 then CACHE_NOT_INIT else CACHE_NO_ERR, len0, sz0))"
    and z: "unat len0 = 0 \<and> unat sz0 = 0"
    by blast
  from z have "len0 = 0" "sz0 = 0" by (simp_all add: unat_eq_0)
  with g0 g len sz r3 r0 show ?thesis by simp
qed

text \<open>
  C4, as stated, at the large cache, which a run of \<open>initCache\<close> and \<open>many\<close>
  calls of \<open>addData\<close> produces: its 33554432 entries have 64 units each, that is
  4294967296 bytes, and \<open>getSize\<close> returns \<open>CACHE_NO_ERR\<close> with 33554432 in
  \<open>*length\<close> and 0 in \<open>*size\<close>.
\<close>

theorem getSize_counts_counterexample:
  "reachable 20 64 many_cache \<and> registry 20 64 many_cache [0..<many] \<and>
   length [0..<many] = 33554432 \<and>
   2 * sum_list (map (length_at (heap many_cache)) [0..<many]) = 4294967296 \<and>
   getSize many_cache = Some (Inr (CACHE_NO_ERR, 33554432, 0))"
proof -
  have "heap many_cache = filled_heap many" by (simp add: many_cache_def filled_cache_def)
  then have "2 * sum_list (map (length_at (heap many_cache)) [0..<many]) = 4294967296"
    by (simp add: filled_total) (simp add: many_def)
  moreover have "length [0..<many] = 33554432" by (simp add: many_def)
  moreover have "reachable 20 64 many_cache"
    unfolding many_cache_def by (rule filled_reachable) simp
  moreover have "registry 20 64 many_cache [0..<many]"
    unfolding many_cache_def by (rule filled_registry) simp
  ultimately show ?thesis
    using many_getSize by simp
qed

text \<open>
  C5. In a well-formed cache that has an entry named \<open>n\<close>, \<open>addData\<close> for \<open>n\<close>
  returns \<open>CACHE_NAME_ERROR\<close> and the cache as it was, with the guard released: the
  blocks (so the values and listeners of all entries), the head and tail pointers (so
  the number and the order of the entries) and the queued tasks are unchanged.
\<close>

theorem addData_duplicate_name:
  assumes "registry NM LM c as" and "n \<in> set (map (name_at (heap c)) as)"
    and "heap c p = None"
  shows "addData NM LM p c (Some n) len val lsn =
    Some (Inr (CACHE_NAME_ERROR, c\<lparr>pool := unlock (lock (pool c))\<rparr>))"
  using addData_rejected [where len = len, OF assms(1) registry_name_valid [OF assms(1,2)] assms(3)]
    assms(2) by simp

theorem addData_duplicate_name_witness:
  "registry 20 64 cache2 [0, 1] \<and> ''t2'' \<in> set (map (name_at (heap cache2)) [0, 1]) \<and>
   heap cache2 2 = None \<and>
   addData 20 64 2 cache2 (Some ''t2'') 1 [9] (Some 3) = Some (Inr (CACHE_NAME_ERROR, cache2))"
proof -
  have r: "registry 20 64 cache2 [0, 1]" by (rule small_registries)
  have n: "''t2'' \<in> set (map (name_at (heap cache2)) [0, 1])"
    by (simp add: small_defs name_at_def)
  have f: "heap cache2 2 = None" by (simp add: small_defs)
  have "cache2\<lparr>pool := unlock (lock (pool cache2))\<rparr> = cache2"
    by (simp add: small_defs lock_def unlock_def)
  with addData_duplicate_name [OF r n f, of 1 "[9]" "Some 3"] r n f show ?thesis by simp
qed

text \<open>
  C6. In a well-formed cache that has no entry named \<open>n\<close>, \<open>addData\<close> for \<open>n\<close> with
  a length above \<open>CACHE_LENGTH_MAX\<close> returns \<open>CACHE_LENGTH_ERROR\<close> and the cache as it
  was, with the guard released: no block is added and none is changed.
\<close>

theorem addData_length_error:
  assumes "registry NM LM c as" and "length n \<le> NM"
    and "n \<notin> set (map (name_at (heap c)) as)" and "LM < unat len" and "heap c p = None"
  shows "addData NM LM p c (Some n) len val lsn =
    Some (Inr (CACHE_LENGTH_ERROR, c\<lparr>pool := unlock (lock (pool c))\<rparr>))"
  using addData_rejected [where len = len, OF assms(1,2,5)] assms(3,4) by simp

theorem addData_length_error_witness:
  "registry 20 64 cache2 [0, 1] \<and> length ''t9'' \<le> (20 :: nat) \<and>
   ''t9'' \<notin> set (map (name_at (heap cache2)) [0, 1]) \<and> (64 :: nat) < unat (65 :: 8 word) \<and>
   heap cache2 2 = None \<and>
   addData 20 64 2 cache2 (Some ''t9'') 65 [] None = Some (Inr (CACHE_LENGTH_ERROR, cache2))"
proof -
  have r: "registry 20 64 cache2 [0, 1]" by (rule small_registries)
  have v: "length ''t9'' \<le> (20 :: nat)" by simp
  have n: "''t9'' \<notin> set (map (name_at (heap cache2)) [0, 1])"
    by (simp add: small_defs name_at_def)
  have l: "(64 :: nat) < unat (65 :: 8 word)" by simp
  have f: "heap cache2 2 = None" by (simp add: small_defs)
  have "cache2\<lparr>pool := unlock (lock (pool cache2))\<rparr> = cache2"
    by (simp add: small_defs lock_def unlock_def)
  with addData_length_error [OF r v n l f, of "[]" None] r n f show ?thesis by simp
qed

text \<open>
  C7. In a well-formed cache that has no entry named \<open>n\<close>, \<open>delData\<close> for \<open>n\<close>
  returns \<open>CACHE_NO_VALUE\<close> when the cache has no entries and \<open>CACHE_NAME_ERROR\<close>
  otherwise, and in both cases the cache as it was, with the guard released: no block is
  removed or changed.
\<close>

theorem delData_failures:
  assumes "registry NM LM c as" and "length n \<le> NM"
    and "n \<notin> set (map (name_at (heap c)) as)"
  shows "delData NM c (Some n) =
    Some (Inr (if as = [] then CACHE_NO_VALUE else CACHE_NAME_ERROR,
               c\<lparr>pool := unlock (lock (pool c))\<rparr>))"
proof (cases "as = []")
  case True
  with assms(1) have "registry NM LM c []" by simp
  from delData_empty [OF this assms(2)] True show ?thesis by simp
next
  case False
  from delData_absent [OF assms(1) False assms(2,3)] False show ?thesis by simp
qed

theorem delData_failures_witness:
  "registry 20 64 cache0 [] \<and> registry 20 64 cache2 [0, 1] \<and> length ''t9'' \<le> (20 :: nat) \<and>
   ''t9'' \<notin> set (map (name_at (heap cache2)) [0, 1]) \<and>
   delData 20 cache0 (Some ''t9'') = Some (Inr (CACHE_NO_VALUE, cache0)) \<and>
   delData 20 cache2 (Some ''t9'') = Some (Inr (CACHE_NAME_ERROR, cache2))"
proof -
  have r0: "registry 20 64 cache0 []" and r2: "registry 20 64 cache2 [0, 1]"
    by (rule small_registries)+
  have v: "length ''t9'' \<le> (20 :: nat)" by simp
  have n0: "''t9'' \<notin> set (map (name_at (heap cache0)) [])" by simp
  have n2: "''t9'' \<notin> set (map (name_at (heap cache2)) [0, 1])"
    by (simp add: small_defs name_at_def)
  have "cache0\<lparr>pool := unlock (lock (pool cache0))\<rparr> = cache0"
    and "cache2\<lparr>pool := unlock (lock (pool cache2))\<rparr> = cache2"
    by (simp_all add: small_defs lock_def unlock_def)
  with delData_failures [OF r0 v n0] delData_failures [OF r2 v n2] r0 r2 n2
  show ?thesis by simp
qed

text \<open>
  C8. Every cache that a run of \<open>initCache\<close> followed by returning calls of
  \<open>addData\<close>, \<open>delData\<close>, \<open>setValue\<close>, \<open>getValue\<close> and \<open>getSize\<close> can produce is
  well-formed: the blocks on the list from the head pointer have pairwise different
  names.
\<close>

theorem reachable_names_unique:
  assumes "reachable NM LM c"
  shows "\<exists>as. registry NM LM c as \<and> path (heap c) (dataHead c) as None \<and>
    distinct (map (name_at (heap c)) as)"
proof -
  from assms have "\<exists>as. registry NM LM c as"
  proof (induction rule: reachable.induct)
    case (by_initCache c0 name maxThreads stackSize e c)
    from initCache_registry [OF by_initCache.hyps] show ?case ..
  next
    case (by_addData c p name len val lsn e c')
    from by_addData.IH obtain as where "registry NM LM c as" ..
    then show ?case using by_addData.hyps(2,3) by (rule addData_preserves_registry)
  next
    case (by_delData c name e c')
    from by_delData.IH obtain as where "registry NM LM c as" ..
    then show ?case using by_delData.hyps(2) by (rule delData_preserves_registry)
  next
    case (by_setValue c name val e c')
    from by_setValue.IH obtain as where "registry NM LM c as" ..
    then have "registry NM LM c' as"
      using by_setValue.hyps(2) by (rule setValue_preserves_registry)
    then show ?case ..
  next
    case (by_getValue c name out e out')
    then show ?case by simp
  next
    case (by_getSize c e len32 size32)
    then show ?case by simp
  qed
  then obtain as where "registry NM LM c as" ..
  then have "registry NM LM c as \<and> path (heap c) (dataHead c) as None \<and>
      distinct (map (name_at (heap c)) as)"
    by (simp add: registry_def)
  then show ?thesis ..
qed

theorem reachable_names_unique_witness:
  "reachable 20 64 cache2 \<and>
   (\<exists>as. registry 20 64 cache2 as \<and> path (heap cache2) (dataHead cache2) as None \<and>
     distinct (map (name_at (heap cache2)) as))"
proof -
  have "initCache 20 blank (Some ''edm'') 4 512 = (CACHE_NO_ERR, cache0)"
    by (simp add: cache0_def initCache_def)
  then have r0: "reachable 20 64 cache0" by (rule by_initCache)
  have "heap cache0 0 = None" by (simp add: small_defs)
  with r0 have r1: "reachable 20 64 cache1" using cache1_by_addData by (rule by_addData)
  have "heap cache1 1 = None" by (simp add: small_defs)
  with r1 have r2: "reachable 20 64 cache2" using cache2_by_addData by (rule by_addData)
  from reachable_names_unique [OF r2] r2 show ?thesis by simp
qed

text \<open>
  C9. \<open>initCache\<close> with a name that is \<open>NULL\<close> or longer than \<open>CACHE_NAME_MAX\<close>
  returns \<open>CACHE_NAME_ERROR\<close> and still initializes the cache: the six functions are
  stored, the head and tail pointers are \<open>NULL\<close> (the cache is well-formed with no
  entries), and the pool is the one \<open>initThreadPool\<close> makes for the given number of
  threads and stack size. The name is not copied.
\<close>

theorem initCache_invalid_name:
  assumes "name = None \<or> (\<exists>n. name = Some n \<and> NM < length n)"
  shows "\<exists>c'. initCache NM c name maxThreads stackSize = (CACHE_NAME_ERROR, c') \<and>
    has_fn c' = Some HasData \<and> add_fn c' = Some AddData \<and> del_fn c' = Some DelData \<and>
    get_fn c' = Some GetValue \<and> set_fn c' = Some SetValue \<and> getSize_fn c' = Some GetSize \<and>
    dataHead c' = None \<and> dataTail c' = None \<and> registry NM LM c' [] \<and>
    pool c' = initThreadPool ''cache'' maxThreads stackSize \<and>
    maxThreadNum (pool c') = maxThreads \<and> threadStackSize (pool c') = stackSize \<and>
    tasks (pool c') = [] \<and> cache_name c' = cache_name c \<and> heap c' = heap c"
  using assms by (auto simp: initCache_def initThreadPool_def registry_def)

theorem initCache_invalid_name_witness:
  "fst (initCache 20 blank None 4 512) = CACHE_NAME_ERROR \<and>
   fst (initCache 20 blank (Some ''a name of more than twenty characters'') 4 512) = CACHE_NAME_ERROR \<and>
   snd (initCache 20 blank (Some ''a name of more than twenty characters'') 4 512) = snd (initCache 20 blank None 4 512) \<and>
   snd (initCache 20 blank None 4 512) =
     blank\<lparr>has_fn := Some HasData, add_fn := Some AddData, del_fn := Some DelData,
           get_fn := Some GetValue, set_fn := Some SetValue, getSize_fn := Some GetSize,
           pool := \<lparr>pool_name = ''cache'', maxThreadNum = 4, threadStackSize = 512,
                    held = False, tasks = []\<rparr>\<rparr>"
proof -
  have a: "(None :: cstr) = None \<or> (\<exists>n. (None :: cstr) = Some n \<and> (20 :: nat) < length n)"
    by simp
  have b: "Some ''a name of more than twenty characters'' = None \<or> (\<exists>n. Some ''a name of more than twenty characters'' = Some n \<and> (20 :: nat) < length n)"
    by simp
  from initCache_invalid_name [OF a, of blank 4 512 64]
    initCache_invalid_name [OF b, of blank 4 512 64]
  show ?thesis
    by (simp add: initCache_def initThreadPool_def blank_def)
qed

text \<open>
  C10. In a well-formed cache that has no entry named \<open>n\<close>, \<open>setValue\<close> for \<open>n\<close>
  returns \<open>CACHE_NAME_ERROR\<close> and the cache exactly as it was: no task is submitted to
  the pool and no value is changed.
\<close>

theorem setValue_absent:
  assumes "registry NM LM c as" and "length n \<le> NM"
    and "n \<notin> set (map (name_at (heap c)) as)"
  shows "setValue NM c (Some n) val = Some (Inr (CACHE_NAME_ERROR, c))"
proof -
  from assms(3) have "lookup (heap c) as n = None" by (simp only: lookup_None) simp
  with hasData_registry [OF assms(1,2)] show ?thesis by (simp add: setValue_def)
qed

theorem setValue_absent_witness:
  "registry 20 64 cache2 [0, 1] \<and> length ''t9'' \<le> (20 :: nat) \<and>
   ''t9'' \<notin> set (map (name_at (heap cache2)) [0, 1]) \<and>
   setValue 20 cache2 (Some ''t9'') [8, 8] = Some (Inr (CACHE_NAME_ERROR, cache2)) \<and>
   tasks (pool cache2) = []"
proof -
  have r: "registry 20 64 cache2 [0, 1]" by (rule small_registries)
  have v: "length ''t9'' \<le> (20 :: nat)" by simp
  have n: "''t9'' \<notin> set (map (name_at (heap cache2)) [0, 1])"
    by (simp add: small_defs name_at_def)
  have "tasks (pool cache2) = []" by (simp add: small_defs)
  with setValue_absent [OF r v n, of "[8, 8]"] r n show ?thesis by simp
qed

end
